theory Spec2Isabelle
  imports Main "HOL-Library.AList" "HOL-Library.FSet" "HOL-Library.Sublist"
begin

text \<open>
  The topic index and the relay discovery of tagstr, a client of the nostr network:
  the functions of \<^verbatim>\<open>services/NostrService.ts\<close> that keep, for each hashtag, the last
  events and the number of deliveries of each relay, and the class
  \<^verbatim>\<open>StandardRelayDiscovery\<close> of \<^verbatim>\<open>utils/relayDiscovery.ts\<close> that collects the relays
  which authors recommend. The functions are translated one by one; state is passed
  and returned.
\<close>

section \<open>Message model\<close>

text \<open>
  The interface \<^verbatim>\<open>NostrEvent\<close> of \<^verbatim>\<open>types/index.ts\<close>. The field \<^verbatim>\<open>id\<close> is
  called \<open>event_id\<close> here, since \<open>id\<close> is the identity function of HOL. Numbers that
  the code only uses as integers (kinds, Unix timestamps, counters) are \<open>int\<close> or \<open>nat\<close>.
\<close>

record NostrEvent =
  event_id :: string
  pubkey :: string
  created_at :: int
  kind :: int
  tags :: "string list list"
  content :: string
  sig :: string

text \<open>
  \<^verbatim>\<open>tag[0] === key && tag[1]\<close>: the tag has the given first element and a second
  element that is truthy, that is, present and not the empty string. The value is the
  second element.
\<close>

fun tagValue :: "string \<Rightarrow> string list \<Rightarrow> string option" where
  "tagValue key (k # v # rest) = (if k = key \<and> v \<noteq> [] then Some v else None)"
| "tagValue key _ = None"

text \<open>
  \<^verbatim>\<open>String.prototype.toLowerCase\<close> on the ASCII letters; every other character is
  left as it is. No theorem below depends on what \<open>toLowerCase\<close> does to a string.
\<close>

definition toLowerChar :: "char \<Rightarrow> char" where
  "toLowerChar c =
     (case map_of (zip ''ABCDEFGHIJKLMNOPQRSTUVWXYZ'' ''abcdefghijklmnopqrstuvwxyz'') c of
        None \<Rightarrow> c
      | Some d \<Rightarrow> d)"

definition toLowerCase :: "string \<Rightarrow> string" where
  "toLowerCase s = map toLowerChar s"

text \<open>
  \<^verbatim>\<open>event.tags.filter(tag => tag[0] === 't' && tag[1]).map(tag => tag[1].toLowerCase())\<close>,
  the first statement of both \<^verbatim>\<open>trackHashtagEvents\<close> and
  \<^verbatim>\<open>trackHashtagRelayDistribution\<close>.
\<close>

definition hashtagsOf :: "NostrEvent \<Rightarrow> string list" where
  "hashtagsOf event = map toLowerCase (List.map_filter (tagValue ''t'') (tags event))"

section \<open>Topic index (\<^verbatim>\<open>services/NostrService.ts\<close>)\<close>

text \<open>
  The two private maps of \<^verbatim>\<open>NostrService\<close> that the topic index consists of. The
  inner map of \<open>hashtagRelayDistribution\<close> is an association list in insertion order,
  as a JavaScript \<^verbatim>\<open>Map\<close> iterates: \<open>AList.update\<close> overwrites a key where it stands
  and appends a new key at the end, as \<^verbatim>\<open>Map.prototype.set\<close> does.
\<close>

record NostrService =
  hashtagEvents :: "string \<rightharpoonup> NostrEvent list"
  hashtagRelayDistribution :: "string \<rightharpoonup> (string \<times> nat) list"

definition emptyService :: NostrService where
  "emptyService = \<lparr> hashtagEvents = Map.empty, hashtagRelayDistribution = Map.empty \<rparr>"

text \<open>The body of the \<^verbatim>\<open>forEach\<close> of \<^verbatim>\<open>trackHashtagEvents\<close>, for one hashtag.\<close>

definition storeForHashtag ::
  "NostrEvent \<Rightarrow> (string \<rightharpoonup> NostrEvent list) \<Rightarrow> string \<Rightarrow> (string \<rightharpoonup> NostrEvent list)" where
  "storeForHashtag event m hashtag =
     (let events = (case m hashtag of None \<Rightarrow> [] | Some es \<Rightarrow> es);
          events1 = (if \<not> list_ex (\<lambda>e. event_id e = event_id event) events
                     then event # events else events);
          events2 = (if length events1 > 100 then take 100 events1 else events1)
      in m(hashtag \<mapsto> events2))"

definition trackHashtagEvents :: "NostrService \<Rightarrow> NostrEvent \<Rightarrow> NostrService" where
  "trackHashtagEvents s event =
     s\<lparr> hashtagEvents := foldl (storeForHashtag event) (hashtagEvents s) (hashtagsOf event) \<rparr>"

text \<open>The body of the \<^verbatim>\<open>forEach\<close> of \<^verbatim>\<open>trackHashtagRelayDistribution\<close>.\<close>

definition countForHashtag ::
  "string \<Rightarrow> (string \<rightharpoonup> (string \<times> nat) list) \<Rightarrow> string \<Rightarrow> (string \<rightharpoonup> (string \<times> nat) list)" where
  "countForHashtag relayUrl m hashtag =
     (let relayDist = (case m hashtag of None \<Rightarrow> [] | Some d \<Rightarrow> d)
      in m(hashtag \<mapsto>
           AList.update relayUrl
             ((case map_of relayDist relayUrl of None \<Rightarrow> 0 | Some c \<Rightarrow> c) + 1) relayDist))"

definition trackHashtagRelayDistribution ::
  "NostrService \<Rightarrow> NostrEvent \<Rightarrow> string \<Rightarrow> NostrService" where
  "trackHashtagRelayDistribution s event relayUrl =
     s\<lparr> hashtagRelayDistribution :=
          foldl (countForHashtag relayUrl) (hashtagRelayDistribution s) (hashtagsOf event) \<rparr>"

definition getHashtagEvents :: "NostrService \<Rightarrow> string \<Rightarrow> NostrEvent list" where
  "getHashtagEvents s hashtag =
     (case hashtagEvents s (toLowerCase hashtag) of None \<Rightarrow> [] | Some es \<Rightarrow> es)"

definition getHashtagRelayDistribution :: "NostrService \<Rightarrow> string \<Rightarrow> (string \<times> nat) list" where
  "getHashtagRelayDistribution s hashtag =
     (case hashtagRelayDistribution s (toLowerCase hashtag) of None \<Rightarrow> [] | Some d \<Rightarrow> d)"

text \<open>
  One message arriving from one relay (\<^verbatim>\<open>startEventSubscriptions\<close>): the \<^verbatim>\<open>tap\<close> runs
  \<^verbatim>\<open>handleEvent\<close>, which calls \<^verbatim>\<open>trackHashtagRelayDistribution\<close>, and then the
  subscriber calls \<^verbatim>\<open>trackHashtagEvents\<close>. The other effects of the two callbacks
  (relay status, counters per kind, profile fetches) do not touch the two maps.
\<close>

definition deliver :: "NostrService \<Rightarrow> NostrEvent \<times> string \<Rightarrow> NostrService" where
  "deliver s d = trackHashtagEvents (trackHashtagRelayDistribution s (fst d) (snd d)) (fst d)"


section \<open>The platform: \<^verbatim>\<open>URL\<close> and \<^verbatim>\<open>JSON.parse\<close>\<close>

text \<open>
  The code calls the runtime's \<^verbatim>\<open>URL\<close> constructor and \<^verbatim>\<open>JSON.parse\<close>. They are not
  code of this repository, so every function below takes them as a parameter \<open>P\<close>:
  \<^item> \<open>URL_parse P s\<close> is \<^verbatim>\<open>new URL(s)\<close>, \<open>None\<close> when the constructor throws; of the
    object, the code reads \<^verbatim>\<open>protocol\<close>, \<^verbatim>\<open>hostname\<close> and \<^verbatim>\<open>toString()\<close> (\<open>href\<close>);
  \<^item> \<open>JSON_parse P s\<close> is \<^verbatim>\<open>JSON.parse(s)\<close>, \<open>None\<close> when it throws; an object comes
    with its properties in the order of \<^verbatim>\<open>Object.entries\<close>;
  \<^item> \<open>String_of P v\<close> is the string that \<^verbatim>\<open>new URL(v)\<close> makes of a value \<open>v\<close> that is
    not a string.
\<close>

record URL =
  protocol :: string
  hostname :: string
  href :: string

datatype json =
  JNull | JBool bool | JNum int | JStr string | JArr "json list" | JObj "(string \<times> json) list"

record platform =
  URL_parse :: "string \<Rightarrow> URL option"
  JSON_parse :: "string \<Rightarrow> json option"
  String_of :: "json \<Rightarrow> string"

section \<open>Strings and regular expressions of JavaScript\<close>

definition startsWith :: "string \<Rightarrow> string \<Rightarrow> bool" where
  "startsWith s d = (take (length d) s = d)"

definition endsWith :: "string \<Rightarrow> string \<Rightarrow> bool" where
  "endsWith s d = (length d \<le> length s \<and> drop (length s - length d) s = d)"

text \<open>\<^verbatim>\<open>s.replace(/\/$/, '')\<close>: one slash at the very end of the string is removed.\<close>

definition stripTrailingSlash :: "string \<Rightarrow> string" where
  "stripTrailingSlash s = (if s \<noteq> [] \<and> last s = CHR ''/'' then butlast s else s)"

text \<open>\<^verbatim>\<open>url.replace(/[.,;:!?)]$/, '')\<close>: one punctuation character at the end is removed.\<close>

definition stripTrailingPunctuation :: "string \<Rightarrow> string" where
  "stripTrailingPunctuation s =
     (if s \<noteq> [] \<and> last s \<in> set ''.,;:!?)'' then butlast s else s)"

text \<open>
  \<^verbatim>\<open>s.match(re)\<close> for a global regular expression: \<open>len\<close> gives the length of the match
  that starts at the head of a string, if there is one. The scan takes the leftmost
  match, continues behind it, and moves on by one character where nothing matches.
  \<open>skip\<close> counts the characters of the last match that are still to be passed.
  \<^verbatim>\<open>null\<close> (no match) is the empty list: the callers only iterate over the result.
\<close>

fun scanMatches :: "(string \<Rightarrow> nat option) \<Rightarrow> nat \<Rightarrow> string \<Rightarrow> string list" where
  "scanMatches len skip [] = []"
| "scanMatches len (Suc k) (c # cs) = scanMatches len k cs"
| "scanMatches len 0 (c # cs) =
     (case len (c # cs) of
        Some n \<Rightarrow> take n (c # cs) # scanMatches len (n - 1) cs
      | None \<Rightarrow> scanMatches len 0 cs)"

definition isLowerAlnum :: "char \<Rightarrow> bool" where
  "isLowerAlnum c = (c \<in> set ''abcdefghijklmnopqrstuvwxyz0123456789'')"

definition isDigit :: "char \<Rightarrow> bool" where
  "isDigit c = (c \<in> set ''0123456789'')"

definition isHostChar :: "char \<Rightarrow> bool" where
  "isHostChar c =
     (c \<in> set ''abcdefghijklmnopqrstuvwxyzABCDEFGHIJKLMNOPQRSTUVWXYZ0123456789.-'')"

text \<open>\<^verbatim>\<open>\s\<close> on the ASCII characters: space, tab, line feed, vertical tab, form feed, return.\<close>

definition isSpace :: "char \<Rightarrow> bool" where
  "isSpace c = (of_char c \<in> {32, 9, 10, 11, 12, 13 :: nat})"

text \<open>\<^verbatim>\<open>/n(profile|event|addr)1[a-z0-9]+/\<close> at the head of a string.\<close>

definition entityLength :: "string \<Rightarrow> nat option" where
  "entityLength s =
     (case s of
        [] \<Rightarrow> None
      | c # r \<Rightarrow>
          if c \<noteq> CHR ''n'' then None
          else (let k = (if take 7 r = ''profile'' then Some 7
                         else if take 5 r = ''event'' then Some 5
                         else if take 4 r = ''addr'' then Some 4 else None)
                in case k of
                     None \<Rightarrow> None
                   | Some k \<Rightarrow>
                       (case drop k r of
                          [] \<Rightarrow> None
                        | d # t \<Rightarrow>
                            if d \<noteq> CHR ''1'' then None
                            else (let m = length (takeWhile isLowerAlnum t)
                                  in if m = 0 then None else Some (1 + k + 1 + m)))))"

text \<open>
  \<^verbatim>\<open>/wss?:\/\/[a-zA-Z0-9.-]+(?::[0-9]+)?(?:\/[^\s]*)?/\<close> at the head of a string. Each
  quantifier is greedy, and nothing that follows a group can fail, so there is no
  backtracking: the host is the longest run of host characters, the port is taken when
  a colon and a digit follow, the path when a slash follows.
\<close>

definition urlLength :: "string \<Rightarrow> nat option" where
  "urlLength s =
     (let k = (if take 6 s = ''wss://'' then Some 6
               else if take 5 s = ''ws://'' then Some 5 else None)
      in case k of
           None \<Rightarrow> None
         | Some k \<Rightarrow>
             (let r = drop k s;
                  h = length (takeWhile isHostChar r);
                  r1 = drop h r;
                  p = (case r1 of
                         [] \<Rightarrow> 0
                       | c # t \<Rightarrow>
                           if c = CHR '':'' \<and> takeWhile isDigit t \<noteq> []
                           then 1 + length (takeWhile isDigit t) else 0);
                  r2 = drop p r1;
                  q = (case r2 of
                         [] \<Rightarrow> 0
                       | c # t \<Rightarrow>
                           if c = CHR ''/'' then 1 + length (takeWhile (\<lambda>x. \<not> isSpace x) t)
                           else 0)
              in if h = 0 then None else Some (k + h + p + q)))"

text \<open>
  A JavaScript \<^verbatim>\<open>Set\<close> of which the code reads the elements in order
  (\<^verbatim>\<open>Array.from\<close>): \<^verbatim>\<open>add\<close> appends an element that is not there yet.
\<close>

definition addIfNew :: "string list \<Rightarrow> string \<Rightarrow> string list" where
  "addIfNew xs x = (if x \<in> set xs then xs else xs @ [x])"

text \<open>\<^verbatim>\<open>xs.slice(0, n)\<close>: a negative \<open>n\<close> counts from the end.\<close>

definition slice0 :: "int \<Rightarrow> 'a list \<Rightarrow> 'a list" where
  "slice0 n xs = (if n < 0 then take (nat (int (length xs) + n)) xs else take (nat n) xs)"

section \<open>Helpers of \<^verbatim>\<open>utils/helpers.ts\<close> (in the sources, \<^verbatim>\<open>unnamed/part_000\<close>)\<close>

definition isValidRelayUrl :: "platform \<Rightarrow> string \<Rightarrow> bool" where
  "isValidRelayUrl P url =
     (case URL_parse P url of
        None \<Rightarrow> False
      | Some parsed \<Rightarrow> protocol parsed = ''ws:'' \<or> protocol parsed = ''wss:'')"

definition normalizeRelayUrl :: "platform \<Rightarrow> string \<Rightarrow> string" where
  "normalizeRelayUrl P url =
     (case URL_parse P url of
        None \<Rightarrow> url
      | Some parsed \<Rightarrow> stripTrailingSlash (href parsed))"


section \<open>Relay discovery (\<^verbatim>\<open>utils/relayDiscovery.ts\<close>)\<close>

datatype source = nip65 | nip19 | contacts | legacy

text \<open>
  The interface \<^verbatim>\<open>RelayListEntry\<close>. Its fields \<^verbatim>\<open>write\<close> and \<^verbatim>\<open>pubkey\<close> are
  \<open>entry_write\<close> and \<open>entry_pubkey\<close> here: \<open>write\<close> is a keyword of Isabelle and
  \<open>pubkey\<close> is the field of \<open>NostrEvent\<close>.
\<close>

record RelayListEntry =
  url :: string
  read :: bool
  entry_write :: bool
  source :: source
  entry_pubkey :: string
  timestamp :: int

text \<open>\<^verbatim>\<open>tag[2]\<close>, the optional marker of an \<^verbatim>\<open>r\<close> tag; \<open>None\<close> is \<^verbatim>\<open>undefined\<close>.\<close>

fun tagMarker :: "string list \<Rightarrow> string option" where
  "tagMarker (k # v # m # rest) = Some m"
| "tagMarker _ = None"

definition parseNip65RelayList :: "platform \<Rightarrow> NostrEvent \<Rightarrow> RelayListEntry list" where
  "parseNip65RelayList P event =
     (if kind event \<noteq> 10002 then []
      else List.map_filter
        (\<lambda>tag. case tagValue ''r'' tag of
                  None \<Rightarrow> None
                | Some v \<Rightarrow>
                    if isValidRelayUrl P v
                    then Some \<lparr> url = normalizeRelayUrl P v,
                                read = (tagMarker tag \<noteq> Some ''write''),
                                entry_write = (tagMarker tag \<noteq> Some ''read''),
                                source = nip65,
                                entry_pubkey = pubkey event,
                                timestamp = created_at event \<rparr>
                    else None)
        (tags event))"

definition parseNip19RelayHints :: "platform \<Rightarrow> string \<Rightarrow> string list" where
  "parseNip19RelayHints P bech32String =
     (if \<not> startsWith bech32String ''n'' then []
      else List.map_filter
        (\<lambda>url. let cleanUrl = stripTrailingPunctuation url
                in if isValidRelayUrl P cleanUrl then Some (normalizeRelayUrl P cleanUrl)
                   else None)
        (scanMatches urlLength 0 bech32String))"

definition extractNip19RelayHints :: "platform \<Rightarrow> string \<Rightarrow> string list" where
  "extractNip19RelayHints P content' =
     foldl (\<lambda>relays entity. foldl addIfNew relays (parseNip19RelayHints P entity)) []
       (scanMatches entityLength 0 content')"

record StandardRelayDiscoveryConfig =
  maxRelays :: int
  minFolloweeRecommendations :: int
  nip65Enabled :: bool
  nip19Enabled :: bool
  followContactRelays :: bool
  blacklistedDomains :: "string list"
  preferredDomains :: "string list"
  maxAgeHours :: int

definition defaultStandardConfig :: StandardRelayDiscoveryConfig where
  "defaultStandardConfig =
     \<lparr> maxRelays = 15,
       minFolloweeRecommendations = 2,
       nip65Enabled = True,
       nip19Enabled = True,
       followContactRelays = True,
       blacklistedDomains =
         [''localhost'', ''127.0.0.1'', ''0.0.0.0'', ''test.local'', ''example.com'',
          ''192.168.'', ''10.0.'', ''172.16.''],
       preferredDomains =
         [''relay.damus.io'', ''nos.lol'', ''relay.primal.net'', ''relay.nostr.band'',
          ''nostr.wine'', ''relay.snort.social'', ''nostr-pub.wellorder.net'',
          ''relay.current.fyi''],
       maxAgeHours = 720 \<rparr>"

text \<open>
  The value type of the map \<^verbatim>\<open>relayRecommendations\<close>. The two \<^verbatim>\<open>Set\<close>s of public keys
  are finite sets: the code adds to them and reads their \<^verbatim>\<open>size\<close>.
\<close>

record Recommendation =
  readRecommendations :: "string fset"
  writeRecommendations :: "string fset"
  lastSeen :: int
  sources :: "source list"

text \<open>
  The fields of the class \<^verbatim>\<open>StandardRelayDiscovery\<close>. The map \<^verbatim>\<open>relayRecommendations\<close>
  is an association list in insertion order, the order in which
  \<^verbatim>\<open>getRecommendedRelays\<close> reads its entries.
\<close>

record StandardRelayDiscovery =
  relayRecommendations :: "(string \<times> Recommendation) list"
  followedPubkeys :: "string fset"
  config :: StandardRelayDiscoveryConfig

text \<open>The constructor.\<close>

definition newDiscovery :: "StandardRelayDiscoveryConfig \<Rightarrow> StandardRelayDiscovery" where
  "newDiscovery c = \<lparr> relayRecommendations = [], followedPubkeys = {||}, config = c \<rparr>"

definition isBlacklisted :: "platform \<Rightarrow> StandardRelayDiscoveryConfig \<Rightarrow> string \<Rightarrow> bool" where
  "isBlacklisted P c relayUrl =
     (case URL_parse P relayUrl of
        None \<Rightarrow> True
      | Some u \<Rightarrow>
          list_ex (\<lambda>domain. hostname u = domain
                              \<or> endsWith (hostname u) (''.'' @ domain)
                              \<or> startsWith (hostname u) domain)
            (blacklistedDomains c))"

definition isPreferredDomain :: "platform \<Rightarrow> StandardRelayDiscoveryConfig \<Rightarrow> string \<Rightarrow> bool" where
  "isPreferredDomain P c relayUrl =
     (case URL_parse P relayUrl of
        None \<Rightarrow> False
      | Some u \<Rightarrow>
          list_ex (\<lambda>domain. hostname u = domain \<or> endsWith (hostname u) (''.'' @ domain))
            (preferredDomains c))"

definition totalRecsOf :: "Recommendation \<Rightarrow> nat" where
  "totalRecsOf d = fcard (readRecommendations d) + fcard (writeRecommendations d)"

text \<open>
  The statements that the three \<^verbatim>\<open>forEach\<close> bodies of \<^verbatim>\<open>processNip65Event\<close>,
  \<^verbatim>\<open>processNip19Hints\<close> and \<^verbatim>\<open>processContactEvent\<close> share word for word, from
  \<^verbatim>\<open>const existing = this.relayRecommendations.get(...) || {...}\<close> to
  \<^verbatim>\<open>newRelays.push(...)\<close>. They differ in the arguments only: the relay, the public key
  and the time stamp, whether the key is added for reading and for writing (the hints
  and the contact lists add it for reading only), and the source that is recorded. The
  state of the loop is the map and the list \<^verbatim>\<open>newRelays\<close>.
\<close>

definition recommend ::
  "StandardRelayDiscoveryConfig \<Rightarrow> string \<Rightarrow> string \<Rightarrow> int \<Rightarrow> bool \<Rightarrow> bool \<Rightarrow> source \<Rightarrow>
   (string \<times> Recommendation) list \<times> string list \<Rightarrow>
   (string \<times> Recommendation) list \<times> string list" where
  "recommend c relayUrl pk ts rd wr src st =
     (let existing =
            (case map_of (fst st) relayUrl of
               None \<Rightarrow> \<lparr> readRecommendations = {||}, writeRecommendations = {||},
                          lastSeen = 0, sources = [] \<rparr>
             | Some d \<Rightarrow> d);
          e1 = (if rd then existing\<lparr> readRecommendations :=
                                      finsert pk (readRecommendations existing) \<rparr>
                else existing);
          e2 = (if wr then e1\<lparr> writeRecommendations := finsert pk (writeRecommendations e1) \<rparr>
                else e1);
          e3 = e2\<lparr> lastSeen := max (lastSeen e2) (ts * 1000) \<rparr>;
          e4 = (if src \<notin> set (sources e3) then e3\<lparr> sources := sources e3 @ [src] \<rparr> else e3);
          totalRecs = totalRecsOf e4
      in (AList.update relayUrl e4 (fst st),
          if int totalRecs \<ge> minFolloweeRecommendations c then snd st @ [relayUrl]
          else snd st))"

definition processNip65Event ::
  "platform \<Rightarrow> StandardRelayDiscovery \<Rightarrow> NostrEvent \<Rightarrow> string list \<times> StandardRelayDiscovery" where
  "processNip65Event P s event =
     (if \<not> nip65Enabled (config s) \<or> kind event \<noteq> 10002 then ([], s)
      else (let st = foldl
                  (\<lambda>st entry.
                      if isBlacklisted P (config s) (url entry) then st
                      else recommend (config s) (url entry) (entry_pubkey entry)
                             (timestamp entry) (read entry) (entry_write entry) nip65 st)
                  (relayRecommendations s, []) (parseNip65RelayList P event)
            in (snd st, s\<lparr> relayRecommendations := fst st \<rparr>)))"

text \<open>
  \<^verbatim>\<open>processNip19Hints\<close> from the line \<^verbatim>\<open>const newRelays: string[] = []\<close> on, with the
  array \<^verbatim>\<open>hints\<close> as an argument.
\<close>

definition processHintList ::
  "platform \<Rightarrow> StandardRelayDiscovery \<Rightarrow> NostrEvent \<Rightarrow> string list \<Rightarrow>
   string list \<times> StandardRelayDiscovery" where
  "processHintList P s event hints =
     (let st = foldl
            (\<lambda>st relayUrl.
                if isBlacklisted P (config s) relayUrl then st
                else recommend (config s) relayUrl (pubkey event) (created_at event)
                       True False nip19 st)
            (relayRecommendations s, []) hints
      in (snd st, s\<lparr> relayRecommendations := fst st \<rparr>))"

definition processNip19Hints ::
  "platform \<Rightarrow> StandardRelayDiscovery \<Rightarrow> NostrEvent \<Rightarrow> string list \<times> StandardRelayDiscovery" where
  "processNip19Hints P s event =
     (if \<not> nip19Enabled (config s) then ([], s)
      else processHintList P s event (extractNip19RelayHints P (content event)))"

text \<open>
  The values that \<^verbatim>\<open>processContactEvent\<close> takes from the parsed content:
  \<^verbatim>\<open>content && typeof content === 'object'\<close> holds of an object and of an array,
  \<^verbatim>\<open>Object.entries\<close> lists the property values (the keys are not used), and
  \<^verbatim>\<open>relayInfo && typeof relayInfo === 'object' && relayInfo.relay\<close> selects the objects
  with a truthy property \<^verbatim>\<open>relay\<close>. Of a number, only whether it is zero is read.
\<close>

fun truthy :: "json \<Rightarrow> bool" where
  "truthy JNull = False"
| "truthy (JBool b) = b"
| "truthy (JNum n) = (n \<noteq> 0)"
| "truthy (JStr s) = (s \<noteq> [])"
| "truthy (JArr xs) = True"
| "truthy (JObj kvs) = True"

fun entryValues :: "json \<Rightarrow> json list" where
  "entryValues (JObj kvs) = map snd kvs"
| "entryValues (JArr xs) = xs"
| "entryValues _ = []"

fun relayOf :: "json \<Rightarrow> json option" where
  "relayOf (JObj kvs) =
     (case map_of kvs ''relay'' of
        None \<Rightarrow> None
      | Some v \<Rightarrow> if truthy v then Some v else None)"
| "relayOf _ = None"

fun urlText :: "platform \<Rightarrow> json \<Rightarrow> string" where
  "urlText P (JStr s) = s"
| "urlText P v = String_of P v"

definition contactRelayUrls :: "platform \<Rightarrow> string \<Rightarrow> string list" where
  "contactRelayUrls P content' =
     (case JSON_parse P content' of
        None \<Rightarrow> []
      | Some c \<Rightarrow> map (urlText P) (List.map_filter relayOf (entryValues c)))"

definition processContactEvent ::
  "platform \<Rightarrow> StandardRelayDiscovery \<Rightarrow> NostrEvent \<Rightarrow> string list \<times> StandardRelayDiscovery" where
  "processContactEvent P s event =
     (if \<not> followContactRelays (config s) \<or> kind event \<noteq> 3 then ([], s)
      else (let followed = foldl
                  (\<lambda>f tag. case tagValue ''p'' tag of None \<Rightarrow> f | Some v \<Rightarrow> finsert v f)
                  (followedPubkeys s) (tags event);
                st = foldl
                  (\<lambda>st relayUrl.
                      if isValidRelayUrl P relayUrl \<and> \<not> isBlacklisted P (config s) relayUrl
                      then recommend (config s) (normalizeRelayUrl P relayUrl) (pubkey event)
                             (created_at event) True False contacts st
                      else st)
                  (relayRecommendations s, []) (contactRelayUrls P (content event))
            in (snd st, s\<lparr> relayRecommendations := fst st, followedPubkeys := followed \<rparr>)))"

text \<open>
  An entry is stale at the time \<open>now\<close> (\<^verbatim>\<open>Date.now()\<close>, in milliseconds) when
  \<^verbatim>\<open>now - data.lastSeen > maxAge\<close>. Both \<^verbatim>\<open>getRecommendedRelays\<close> and \<^verbatim>\<open>cleanup\<close> delete
  the stale entries from the map, one \<^verbatim>\<open>delete(url)\<close> for each.
\<close>

definition isStale :: "StandardRelayDiscoveryConfig \<Rightarrow> int \<Rightarrow> Recommendation \<Rightarrow> bool" where
  "isStale c now d = (now - lastSeen d > maxAgeHours c * 60 * 60 * 1000)"

definition deleteStale ::
  "StandardRelayDiscoveryConfig \<Rightarrow> int \<Rightarrow> (string \<times> Recommendation) list \<Rightarrow>
   (string \<times> Recommendation) list" where
  "deleteStale c now entries =
     foldl (\<lambda>m e. if isStale c now (snd e) then AList.delete (fst e) m else m) entries entries"

text \<open>The elements of the array that \<^verbatim>\<open>getRecommendedRelays\<close> returns.\<close>

record RecommendedRelay =
  rec_url :: string
  readRecs :: nat
  writeRecs :: nat
  totalRecs :: nat
  rec_lastSeen :: int
  rec_sources :: "source list"
  score :: int

definition scored ::
  "platform \<Rightarrow> StandardRelayDiscoveryConfig \<Rightarrow> string \<times> Recommendation \<Rightarrow> RecommendedRelay" where
  "scored P c e =
     (let data = snd e;
          readRecs = fcard (readRecommendations data);
          writeRecs = fcard (writeRecommendations data);
          totalRecs = readRecs + writeRecs;
          score0 = int totalRecs;
          score1 = (if isPreferredDomain P c (fst e) then score0 + 10 else score0);
          score2 = (if nip65 \<in> set (sources data) then score1 + 5 else score1);
          score3 = (if nip19 \<in> set (sources data) then score2 + 2 else score2)
      in \<lparr> rec_url = fst e, readRecs = readRecs, writeRecs = writeRecs,
           totalRecs = totalRecs, rec_lastSeen = lastSeen data, rec_sources = sources data,
           score = score3 \<rparr>)"

text \<open>
  \<^verbatim>\<open>getRecommendedRelays\<close> at the time \<open>now\<close>: the array it returns and the object after
  the call. \<^verbatim>\<open>Array.from\<close> copies the entries before the filter deletes from the map;
  \<^verbatim>\<open>sort\<close> is stable and its comparison \<^verbatim>\<open>b.score - a.score\<close> orders by falling score.
\<close>

definition getRecommendedRelays ::
  "platform \<Rightarrow> int \<Rightarrow> StandardRelayDiscovery \<Rightarrow> RecommendedRelay list \<times> StandardRelayDiscovery" where
  "getRecommendedRelays P now s =
     (let entries = relayRecommendations s;
          kept = filter
            (\<lambda>e. \<not> isStale (config s) now (snd e)
                  \<and> int (totalRecsOf (snd e)) \<ge> minFolloweeRecommendations (config s))
            entries
      in (slice0 (maxRelays (config s))
            (sort_key (\<lambda>r. - score r) (map (scored P (config s)) kept)),
          s\<lparr> relayRecommendations := deleteStale (config s) now entries \<rparr>))"

definition cleanup :: "int \<Rightarrow> StandardRelayDiscovery \<Rightarrow> StandardRelayDiscovery" where
  "cleanup now s =
     s\<lparr> relayRecommendations := deleteStale (config s) now (relayRecommendations s) \<rparr>"


section \<open>The insight view (\<^verbatim>\<open>HashtagHub\<close>, in the sources after \<^verbatim>\<open>vite.config.ts\<close>)\<close>

text \<open>
  \<^verbatim>\<open>updateHashtagData\<close> is the one caller of \<^verbatim>\<open>getHashtagRelayDistribution\<close>; it shows
  \<^verbatim>\<open>relayDistribution.sort((a, b) => b.count - a.count)\<close>. The sort of JavaScript is
  stable, as \<open>sort_key\<close> is.
\<close>

definition relayDistributionView :: "NostrService \<Rightarrow> string \<Rightarrow> (string \<times> nat) list" where
  "relayDistributionView s tag =
     sort_key (\<lambda>p. - int (snd p)) (getHashtagRelayDistribution s tag)"

section \<open>An instance of the platform, and example data\<close>

text \<open>
  To run the functions on examples, \<open>simpleURL\<close> stands for the \<^verbatim>\<open>URL\<close> constructor on
  the addresses \<^verbatim>\<open>ws://host/path\<close> and \<^verbatim>\<open>wss://host/path\<close> whose host is made of
  labels of lowercase letters with dots between them and whose path is made of lowercase
  letters, digits and slashes. The constructor leaves such an address as it is, but for
  the slash it gives to an empty path. \<open>simpleURL\<close> rejects every other string, as the
  constructor rejects a string with no scheme; the examples use no string on which the
  two differ.
\<close>

definition isLowerLetter :: "char \<Rightarrow> bool" where
  "isLowerLetter c = (c \<in> set ''abcdefghijklmnopqrstuvwxyz'')"

definition isPathChar :: "char \<Rightarrow> bool" where
  "isPathChar c = (c \<in> set ''abcdefghijklmnopqrstuvwxyz0123456789/'')"

text \<open>\<open>hostOK True h\<close>: \<open>h\<close> is one or more labels, none empty, with dots between them.\<close>

fun hostOK :: "bool \<Rightarrow> string \<Rightarrow> bool" where
  "hostOK start [] = (\<not> start)"
| "hostOK start (c # cs) =
     (if c = CHR ''.'' then \<not> start \<and> hostOK True cs else isLowerLetter c \<and> hostOK False cs)"

definition hostAndPath :: "string \<Rightarrow> string \<Rightarrow> URL option" where
  "hostAndPath scheme r =
     (let h = takeWhile (\<lambda>c. c \<noteq> CHR ''/'') r;
          p = dropWhile (\<lambda>c. c \<noteq> CHR ''/'') r
      in if hostOK True h \<and> list_all isPathChar p
         then Some \<lparr> protocol = scheme, hostname = h,
                      href = scheme @ ''//'' @ h @ (if p = [] then ''/'' else p) \<rparr>
         else None)"

definition simpleURL :: "string \<Rightarrow> URL option" where
  "simpleURL s =
     (if take 6 s = ''wss://'' then hostAndPath ''wss:'' (drop 6 s)
      else if take 5 s = ''ws://'' then hostAndPath ''ws:'' (drop 5 s)
      else None)"

text \<open>
  \<^verbatim>\<open>String(v)\<close> of a parsed value: an array is the texts of its elements with commas
  between them, \<^verbatim>\<open>null\<close> among them being empty.
\<close>

fun decimal :: "nat \<Rightarrow> string" where
  "decimal n =
     (if n < 10 then [''0123456789'' ! n]
      else decimal (n div 10) @ [''0123456789'' ! (n mod 10)])"

fun joinComma :: "string list \<Rightarrow> string" where
  "joinComma [] = []"
| "joinComma [x] = x"
| "joinComma (x # y # ys) = x @ '','' @ joinComma (y # ys)"

fun jsonText :: "json \<Rightarrow> string" where
  "jsonText JNull = ''null''"
| "jsonText (JBool b) = (if b then ''true'' else ''false'')"
| "jsonText (JNum n) = (if n < 0 then ''-'' @ decimal (nat (- n)) else decimal (nat n))"
| "jsonText (JStr s) = s"
| "jsonText (JArr xs) = joinComma (map (\<lambda>x. if x = JNull then [] else jsonText x) xs)"
| "jsonText (JObj kvs) = ''[object Object]''"

text \<open>
  \<open>exampleDocuments\<close> lists the content of the contact list of the examples with what
  \<^verbatim>\<open>JSON.parse\<close> makes of it. The platform of the examples parses this text and no
  other.
\<close>

definition exampleDocuments :: "(string \<times> json) list" where
  \<open>exampleDocuments =
     [(''{"dave":{"relay":"wss://relay.example.com/"}}'',
       JObj [(''dave'', JObj [(''relay'', JStr ''wss://relay.example.com/'')])])]\<close>

definition examplePlatform :: platform where
  "examplePlatform =
     \<lparr> URL_parse = simpleURL, JSON_parse = map_of exampleDocuments, String_of = jsonText \<rparr>"

text \<open>An event of the given id, author, kind, tags and content, signed at a fixed time.\<close>

definition exampleEvent ::
  "string \<Rightarrow> string \<Rightarrow> int \<Rightarrow> string list list \<Rightarrow> string \<Rightarrow> NostrEvent" where
  "exampleEvent i author k ts body =
     \<lparr> event_id = i, pubkey = author, created_at = 1700000000, kind = k, tags = ts,
       content = body, sig = [] \<rparr>"

text \<open>Notes with the topic \<^verbatim>\<open>bitcoin\<close>; the \<open>n\<close>-th has an id of \<open>n\<close> characters.\<close>

definition numbered :: "nat \<Rightarrow> NostrEvent" where
  "numbered n = exampleEvent (replicate n (CHR ''x'')) ''alice'' 1 [[''t'', ''bitcoin'']] []"

section \<open>Notions of the statements\<close>

subsection \<open>Topic index\<close>

definition listAt :: "(string \<rightharpoonup> 'a list) \<Rightarrow> string \<Rightarrow> 'a list" where
  "listAt m k = (case m k of None \<Rightarrow> [] | Some es \<Rightarrow> es)"

text \<open>What \<open>storeForHashtag\<close> makes of the list of one hashtag.\<close>

definition insertCapped :: "NostrEvent \<Rightarrow> NostrEvent list \<Rightarrow> NostrEvent list" where
  "insertCapped event events =
     (let events1 = (if \<not> list_ex (\<lambda>e. event_id e = event_id event) events
                     then event # events else events)
      in if length events1 > 100 then take 100 events1 else events1)"

text \<open>The invariant of the map \<open>hashtagEvents\<close>: at most 100 events for a hashtag, each id once.\<close>

definition indexOK :: "NostrService \<Rightarrow> bool" where
  "indexOK s =
     (\<forall>h es. hashtagEvents s h = Some es \<longrightarrow> length es \<le> 100 \<and> distinct (map event_id es))"

text \<open>The event has a \<^verbatim>\<open>t\<close> tag that names the topic, in any case of the letters.\<close>

definition references :: "NostrEvent \<Rightarrow> string \<Rightarrow> bool" where
  "references event topic = (toLowerCase topic \<in> set (hashtagsOf event))"

definition countAt :: "(string \<times> nat) list \<Rightarrow> string \<Rightarrow> nat" where
  "countAt d r = (case map_of d r of None \<Rightarrow> 0 | Some c \<Rightarrow> c)"

text \<open>What \<open>countForHashtag\<close> makes of the distribution of one hashtag.\<close>

definition bump :: "string \<Rightarrow> (string \<times> nat) list \<Rightarrow> (string \<times> nat) list" where
  "bump r d = AList.update r (countAt d r + 1) d"

text \<open>
  Over the deliveries \<open>ds\<close> (an event and the relay it came from), the number of \<^verbatim>\<open>t\<close>
  tags that name the topic in the events that the relay delivered.
\<close>

definition deliveries :: "(NostrEvent \<times> string) list \<Rightarrow> string \<Rightarrow> string \<Rightarrow> nat" where
  "deliveries ds topic relayUrl =
     sum_list (map (\<lambda>d. if snd d = relayUrl
                          then count_list (hashtagsOf (fst d)) (toLowerCase topic) else 0) ds)"

text \<open>
  The number of calls of \<open>trackHashtagRelayDistribution\<close> among the deliveries \<open>ds\<close> with
  the relay and an event that references the topic.
\<close>

definition calls :: "(NostrEvent \<times> string) list \<Rightarrow> string \<Rightarrow> string \<Rightarrow> nat" where
  "calls ds topic relayUrl =
     length (filter (\<lambda>d. snd d = relayUrl \<and> references (fst d) topic) ds)"

definition distOK :: "(string \<times> nat) list \<Rightarrow> bool" where
  "distOK d = (distinct (map fst d) \<and> (\<forall>p\<in>set d. 0 < snd p))"

subsection \<open>Relay discovery\<close>

text \<open>
  One run of the statements that \<open>recommend\<close> stands for, as a value: the relay, the
  public key, the time stamp, whether the key is added for reading and for writing, and
  the source.
\<close>

type_synonym request = "string \<times> string \<times> int \<times> bool \<times> bool \<times> source"

definition applyRequest ::
  "StandardRelayDiscoveryConfig \<Rightarrow> (string \<times> Recommendation) list \<times> string list \<Rightarrow> request \<Rightarrow>
   (string \<times> Recommendation) list \<times> string list" where
  "applyRequest c st q =
     (case q of (u, pk, ts, rd, wr, src) \<Rightarrow> recommend c u pk ts rd wr src st)"

definition emptyRecommendation :: Recommendation where
  "emptyRecommendation =
     \<lparr> readRecommendations = {||}, writeRecommendations = {||}, lastSeen = 0, sources = [] \<rparr>"

text \<open>The entry of a relay in the map, the empty entry when the map has none.\<close>

definition entryAt :: "(string \<times> Recommendation) list \<Rightarrow> string \<Rightarrow> Recommendation" where
  "entryAt m u = (case map_of m u of None \<Rightarrow> emptyRecommendation | Some d \<Rightarrow> d)"

text \<open>The combined count of a relay: the sizes of its two sets, added; 0 without an entry.\<close>

definition totalAt :: "(string \<times> Recommendation) list \<Rightarrow> string \<Rightarrow> nat" where
  "totalAt m u = totalRecsOf (entryAt m u)"

text \<open>What a request makes of an entry.\<close>

definition endorsed :: "request \<Rightarrow> Recommendation \<Rightarrow> Recommendation" where
  "endorsed q d =
     (case q of (u, pk, ts, rd, wr, src) \<Rightarrow>
        d\<lparr> readRecommendations :=
               (if rd then finsert pk (readRecommendations d) else readRecommendations d),
           writeRecommendations :=
               (if wr then finsert pk (writeRecommendations d) else writeRecommendations d),
           lastSeen := max (lastSeen d) (ts * 1000),
           sources := (if src \<in> set (sources d) then sources d else sources d @ [src]) \<rparr>)"

text \<open>The entry holds all that the request adds.\<close>

definition covers :: "request \<Rightarrow> Recommendation \<Rightarrow> bool" where
  "covers q d =
     (case q of (u, pk, ts, rd, wr, src) \<Rightarrow>
        (rd \<longrightarrow> pk |\<in>| readRecommendations d) \<and> (wr \<longrightarrow> pk |\<in>| writeRecommendations d)
        \<and> ts * 1000 \<le> lastSeen d \<and> src \<in> set (sources d))"

text \<open>The three operations as one, on a signal: the kind of source and the event.\<close>

datatype signal = Announcement NostrEvent | Hint NostrEvent | ContactList NostrEvent

fun process ::
  "platform \<Rightarrow> StandardRelayDiscovery \<Rightarrow> signal \<Rightarrow> string list \<times> StandardRelayDiscovery" where
  "process P s (Announcement event) = processNip65Event P s event"
| "process P s (Hint event) = processNip19Hints P s event"
| "process P s (ContactList event) = processContactEvent P s event"

definition processAll ::
  "platform \<Rightarrow> StandardRelayDiscovery \<Rightarrow> signal list \<Rightarrow> StandardRelayDiscovery" where
  "processAll P s sgs = foldl (\<lambda>s sg. snd (process P s sg)) s sgs"

text \<open>
  The requests that an operation runs, in order: the entries, hints or contact relays
  that pass its checks. An operation that is switched off, or given an event of another
  kind, runs none.
\<close>

definition nip65Requests ::
  "platform \<Rightarrow> StandardRelayDiscoveryConfig \<Rightarrow> NostrEvent \<Rightarrow> request list" where
  "nip65Requests P c event =
     map (\<lambda>e. (url e, entry_pubkey e, timestamp e, read e, entry_write e, nip65))
       (filter (\<lambda>e. \<not> isBlacklisted P c (url e)) (parseNip65RelayList P event))"

definition hintRequests ::
  "platform \<Rightarrow> StandardRelayDiscoveryConfig \<Rightarrow> NostrEvent \<Rightarrow> string list \<Rightarrow> request list" where
  "hintRequests P c event hints =
     map (\<lambda>h. (h, pubkey event, created_at event, True, False, nip19))
       (filter (\<lambda>h. \<not> isBlacklisted P c h) hints)"

definition contactRequests ::
  "platform \<Rightarrow> StandardRelayDiscoveryConfig \<Rightarrow> NostrEvent \<Rightarrow> request list" where
  "contactRequests P c event =
     map (\<lambda>r. (normalizeRelayUrl P r, pubkey event, created_at event, True, False, contacts))
       (filter (\<lambda>r. isValidRelayUrl P r \<and> \<not> isBlacklisted P c r)
          (contactRelayUrls P (content event)))"

fun requestsOf :: "platform \<Rightarrow> StandardRelayDiscovery \<Rightarrow> signal \<Rightarrow> request list" where
  "requestsOf P s (Announcement event) =
     (if nip65Enabled (config s) \<and> kind event = 10002 then nip65Requests P (config s) event
      else [])"
| "requestsOf P s (Hint event) =
     (if nip19Enabled (config s)
      then hintRequests P (config s) event (extractNip19RelayHints P (content event)) else [])"
| "requestsOf P s (ContactList event) =
     (if followContactRelays (config s) \<and> kind event = 3
      then contactRequests P (config s) event else [])"

text \<open>The relays whose entries a call updates, and the endorsements (relay, author) it records.\<close>

definition targets :: "platform \<Rightarrow> StandardRelayDiscovery \<Rightarrow> signal \<Rightarrow> string list" where
  "targets P s sg = map fst (requestsOf P s sg)"

definition endorsements ::
  "platform \<Rightarrow> StandardRelayDiscovery \<Rightarrow> signal \<Rightarrow> (string \<times> string) list" where
  "endorsements P s sg = map (\<lambda>q. (fst q, fst (snd q))) (requestsOf P s sg)"

definition followedAfter :: "StandardRelayDiscovery \<Rightarrow> signal \<Rightarrow> string fset" where
  "followedAfter s sg =
     (case sg of
        ContactList event \<Rightarrow>
          if followContactRelays (config s) \<and> kind event = 3
          then followedPubkeys s |\<union>| fset_of_list (List.map_filter (tagValue ''p'') (tags event))
          else followedPubkeys s
      | _ \<Rightarrow> followedPubkeys s)"

text \<open>
  What the blacklist check of \<open>processContactEvent\<close> relies on: the check reads the host
  of the address as it stands in the contact list, and the entry is stored under the
  normalized address. The \<^verbatim>\<open>URL\<close> constructor gives both the same host.
\<close>

definition hostStable :: "platform \<Rightarrow> bool" where
  "hostStable P =
     (\<forall>s u. URL_parse P s = Some u \<longrightarrow>
        (\<exists>v. URL_parse P (stripTrailingSlash (href u)) = Some v \<and> hostname v = hostname u))"

text \<open>The entries that pass the filter of \<open>getRecommendedRelays\<close>.\<close>

definition qualifying :: "int \<Rightarrow> StandardRelayDiscovery \<Rightarrow> (string \<times> Recommendation) list" where
  "qualifying now s =
     filter (\<lambda>e. \<not> isStale (config s) now (snd e)
                 \<and> int (totalRecsOf (snd e)) \<ge> minFolloweeRecommendations (config s))
       (relayRecommendations s)"

section \<open>Topic index: lemmas\<close>

lemma storeForHashtag_eq:
  "storeForHashtag event m hashtag = m(hashtag \<mapsto> insertCapped event (listAt m hashtag))"
  by (simp add: storeForHashtag_def insertCapped_def listAt_def Let_def)

lemma length_insertCapped: "length (insertCapped e l) \<le> 100"
  by (simp add: insertCapped_def Let_def)

lemma insertCapped_idem:
  "length l \<le> 100 \<Longrightarrow> insertCapped e (insertCapped e l) = insertCapped e l"
  by (auto simp: insertCapped_def Let_def list_ex_iff)

lemma insertCapped_fresh:
  assumes "event_id e \<notin> event_id ` set l"
  shows "insertCapped e l = take 100 (e # l)"
proof -
  have "\<not> list_ex (\<lambda>x. event_id x = event_id e) l"
    using assms by (force simp: list_ex_iff image_iff)
  then show ?thesis by (simp add: insertCapped_def Let_def)
qed

lemma insertCapped_present:
  "length l \<le> 100 \<Longrightarrow> event_id e \<in> event_id ` set l \<Longrightarrow> insertCapped e l = l"
  by (auto simp: insertCapped_def Let_def list_ex_iff)

lemma foldl_storeForHashtag:
  "length (listAt m k) \<le> 100 \<Longrightarrow>
   foldl (storeForHashtag e) m hs k =
     (if k \<in> set hs then Some (insertCapped e (listAt m k)) else m k)"
proof (induction hs arbitrary: m)
  case Nil
  then show ?case by simp
next
  case (Cons h hs)
  let ?m = "storeForHashtag e m h"
  show ?case
  proof (cases "k = h")
    case True
    have len: "length (listAt ?m k) \<le> 100"
      using True by (simp add: storeForHashtag_eq listAt_def length_insertCapped)
    have at: "listAt ?m k = insertCapped e (listAt m k)"
      using True by (simp add: storeForHashtag_eq listAt_def)
    have here: "?m k = Some (insertCapped e (listAt m k))"
      using True by (simp add: storeForHashtag_eq)
    have "foldl (storeForHashtag e) ?m hs k = Some (insertCapped e (listAt m k))"
      using Cons.IH [OF len] Cons.prems by (simp add: at here insertCapped_idem)
    then show ?thesis using True by simp
  next
    case False
    have at: "listAt ?m k = listAt m k" "?m k = m k"
      using False by (simp_all add: storeForHashtag_eq listAt_def)
    show ?thesis
      using Cons.IH [of ?m] Cons.prems False by (simp add: at)
  qed
qed

lemma distinct_insertCapped:
  assumes "distinct (map event_id l)"
  shows "distinct (map event_id (insertCapped e l))"
proof (cases "list_ex (\<lambda>x. event_id x = event_id e) l")
  case True
  then show ?thesis
    using assms by (simp add: insertCapped_def Let_def take_map [symmetric] distinct_take)
next
  case False
  then have "event_id e \<notin> set (map event_id l)"
    by (force simp: list_ex_iff image_iff)
  then have "distinct (map event_id (e # l))"
    using assms by simp
  then have "distinct (take 100 (map event_id (e # l)))"
    by (rule distinct_take)
  then have d: "distinct (map event_id (take 100 (e # l)))"
    by (simp only: take_map)
  have "event_id e \<notin> event_id ` set l"
    using False by (force simp: list_ex_iff image_iff)
  then have "insertCapped e l = take 100 (e # l)"
    by (rule insertCapped_fresh)
  then show ?thesis
    using d by simp
qed

lemma listAt_le:
  "indexOK s \<Longrightarrow> length (listAt (hashtagEvents s) k) \<le> 100"
  by (auto simp: indexOK_def listAt_def split: option.splits)

lemma hashtagEvents_track:
  "indexOK s \<Longrightarrow>
   hashtagEvents (trackHashtagEvents s e) k =
     (if k \<in> set (hashtagsOf e) then Some (insertCapped e (listAt (hashtagEvents s) k))
      else hashtagEvents s k)"
  by (simp add: trackHashtagEvents_def foldl_storeForHashtag listAt_le)

lemma indexOK_empty: "indexOK emptyService"
  by (simp add: indexOK_def emptyService_def)

lemma indexOK_track:
  assumes "indexOK s"
  shows "indexOK (trackHashtagEvents s e)"
  unfolding indexOK_def
proof (intro allI impI)
  fix h es
  assume h: "hashtagEvents (trackHashtagEvents s e) h = Some es"
  show "length es \<le> 100 \<and> distinct (map event_id es)"
  proof (cases "h \<in> set (hashtagsOf e)")
    case True
    then have es: "es = insertCapped e (listAt (hashtagEvents s) h)"
      using h assms by (simp add: hashtagEvents_track)
    have "distinct (map event_id (listAt (hashtagEvents s) h))"
      using assms by (auto simp: indexOK_def listAt_def split: option.splits)
    then show ?thesis
      by (simp add: es length_insertCapped distinct_insertCapped)
  next
    case False
    then have "hashtagEvents s h = Some es"
      using h assms by (simp add: hashtagEvents_track)
    then show ?thesis using assms by (simp add: indexOK_def)
  qed
qed

lemma hashtagEvents_distribution [simp]:
  "hashtagEvents (trackHashtagRelayDistribution s e r) = hashtagEvents s"
  by (simp add: trackHashtagRelayDistribution_def)

lemma indexOK_distribution:
  "indexOK s \<Longrightarrow> indexOK (trackHashtagRelayDistribution s e r)"
  by (simp add: indexOK_def)

lemma indexOK_deliver: "indexOK s \<Longrightarrow> indexOK (deliver s d)"
  by (simp add: deliver_def indexOK_track indexOK_distribution)

lemma indexOK_foldl_deliver: "indexOK s \<Longrightarrow> indexOK (foldl deliver s ds)"
  by (induction ds arbitrary: s) (simp_all add: indexOK_deliver)

lemma indexOK_reachable: "indexOK (foldl deliver emptyService ds)"
  by (simp add: indexOK_foldl_deliver indexOK_empty)

lemma track_twice:
  assumes "indexOK s"
  shows "trackHashtagEvents (trackHashtagEvents s e) e = trackHashtagEvents s e"
proof -
  have ok: "indexOK (trackHashtagEvents s e)"
    using assms by (rule indexOK_track)
  have "hashtagEvents (trackHashtagEvents (trackHashtagEvents s e) e) k =
        hashtagEvents (trackHashtagEvents s e) k" for k
    using assms
    by (simp add: hashtagEvents_track [OF ok] hashtagEvents_track [OF assms] listAt_def
        insertCapped_idem listAt_le [unfolded listAt_def])
  then have "hashtagEvents (trackHashtagEvents (trackHashtagEvents s e) e) =
        hashtagEvents (trackHashtagEvents s e)"
    by (rule ext)
  then show ?thesis
    by (simp add: trackHashtagEvents_def)
qed

lemma filter_key_distinct:
  "distinct (map f l) \<Longrightarrow> y \<in> f ` set l \<Longrightarrow> length (filter (\<lambda>x. f x = y) l) = 1"
proof (induction l)
  case Nil
  then show ?case by simp
next
  case (Cons a l)
  show ?case
  proof (cases "f a = y")
    case True
    then have "filter (\<lambda>x. f x = y) l = []"
      using Cons.prems(1) by (force simp: filter_empty_conv image_iff)
    then show ?thesis using True by simp
  next
    case False
    then show ?thesis using Cons by auto
  qed
qed

lemma insertCapped_count:
  assumes "distinct (map event_id l)" "length l \<le> 100"
  shows "length (filter (\<lambda>x. event_id x = event_id e) (insertCapped e l)) = 1"
proof (cases "event_id e \<in> event_id ` set l")
  case True
  then have eq: "insertCapped e l = l"
    using assms by (simp add: insertCapped_present)
  show ?thesis
    using True assms(1) by (simp add: eq filter_key_distinct)
next
  case False
  then have eq: "insertCapped e l = take 100 (e # l)"
    by (rule insertCapped_fresh)
  have "filter (\<lambda>x. event_id x = event_id e) (take 99 l) = []"
    using False by (force simp: filter_empty_conv image_iff dest: in_set_takeD)
  then show ?thesis
    by (simp add: eq take_Cons')
qed

text \<open>
  Claim C5. \<open>trackHashtagEvents\<close> is idempotent per message id and topic. In a state
  that any deliveries have led to, for an event that references a topic: tracking the
  event a second time leaves the state as the first tracking left it, and the list of
  the topic then holds exactly one message of that id.
\<close>

theorem recordMessage_idempotent:
  assumes "references e topic"
  shows "trackHashtagEvents (trackHashtagEvents (foldl deliver emptyService ds) e) e =
           trackHashtagEvents (foldl deliver emptyService ds) e
       \<and> length (filter (\<lambda>x. event_id x = event_id e)
            (getHashtagEvents
               (trackHashtagEvents (trackHashtagEvents (foldl deliver emptyService ds) e) e)
               topic)) = 1"
proof -
  let ?s = "foldl deliver emptyService ds"
  have ok: "indexOK ?s" by (rule indexOK_reachable)
  have twice: "trackHashtagEvents (trackHashtagEvents ?s e) e = trackHashtagEvents ?s e"
    using ok by (rule track_twice)
  have d: "distinct (map event_id (listAt (hashtagEvents ?s) (toLowerCase topic)))"
    using ok by (auto simp: indexOK_def listAt_def split: option.splits)
  have "getHashtagEvents (trackHashtagEvents ?s e) topic =
          insertCapped e (listAt (hashtagEvents ?s) (toLowerCase topic))"
    using assms by (simp add: getHashtagEvents_def hashtagEvents_track [OF ok] references_def)
  then show ?thesis
    using twice d listAt_le [OF ok] by (simp add: insertCapped_count)
qed

lemma take_append_take: "take n (xs @ take n ys) = take n (xs @ ys)"
  by (simp add: min_def)

lemma getHashtagEvents_listAt:
  "getHashtagEvents s topic = listAt (hashtagEvents s) (toLowerCase topic)"
  by (simp add: getHashtagEvents_def listAt_def)

lemma getHashtagEvents_track_fresh:
  assumes "indexOK s" "references e topic"
    and "event_id e \<notin> event_id ` set (getHashtagEvents s topic)"
  shows "getHashtagEvents (trackHashtagEvents s e) topic = take 100 (e # getHashtagEvents s topic)"
proof -
  have "getHashtagEvents (trackHashtagEvents s e) topic =
          insertCapped e (getHashtagEvents s topic)"
    using assms(1,2)
    by (simp add: getHashtagEvents_listAt hashtagEvents_track references_def listAt_def)
  then show ?thesis
    using assms(3) by (simp add: insertCapped_fresh)
qed

lemma foldl_track_fresh:
  assumes "indexOK s" "\<forall>e\<in>set es. references e topic" "distinct (map event_id es)"
    and "event_id ` set es \<inter> event_id ` set (getHashtagEvents s topic) = {}"
  shows "getHashtagEvents (foldl trackHashtagEvents s es) topic =
           take 100 (rev es @ getHashtagEvents s topic)"
  using assms
proof (induction es arbitrary: s)
  case Nil
  then show ?case
    using listAt_le [of s "toLowerCase topic"] by (simp add: getHashtagEvents_listAt)
next
  case (Cons e es)
  let ?s = "trackHashtagEvents s e"
  have fresh: "event_id e \<notin> event_id ` set (getHashtagEvents s topic)"
    using Cons.prems(4) by auto
  have step: "getHashtagEvents ?s topic = take 100 (e # getHashtagEvents s topic)"
    using Cons.prems(1,2) fresh by (simp add: getHashtagEvents_track_fresh)
  have ok: "indexOK ?s"
    using Cons.prems(1) by (rule indexOK_track)
  have sub: "event_id ` set (getHashtagEvents ?s topic)
               \<subseteq> insert (event_id e) (event_id ` set (getHashtagEvents s topic))"
    unfolding step using set_take_subset [of 100 "e # getHashtagEvents s topic"] by auto
  have notin: "event_id e \<notin> event_id ` set es"
    using Cons.prems(3) by simp
  have old: "event_id ` set es \<inter> event_id ` set (getHashtagEvents s topic) = {}"
    using Cons.prems(4) by auto
  have big: "event_id ` set es
               \<inter> insert (event_id e) (event_id ` set (getHashtagEvents s topic)) = {}"
    using notin old by simp
  have "event_id ` set es \<inter> event_id ` set (getHashtagEvents ?s topic)
          \<subseteq> event_id ` set es
               \<inter> insert (event_id e) (event_id ` set (getHashtagEvents s topic))"
    using sub by (rule Int_mono [OF subset_refl])
  then have disj: "event_id ` set es \<inter> event_id ` set (getHashtagEvents ?s topic) = {}"
    unfolding big by simp
  have "getHashtagEvents (foldl trackHashtagEvents ?s es) topic =
          take 100 (rev es @ getHashtagEvents ?s topic)"
    using Cons.prems(2,3) by (intro Cons.IH [OF ok _ _ disj]) simp_all
  then have "getHashtagEvents (foldl trackHashtagEvents ?s es) topic =
          take 100 (rev es @ e # getHashtagEvents s topic)"
    by (simp only: step take_append_take)
  then show ?case
    by simp
qed

lemma capped_reachable:
  "length (getHashtagEvents (foldl deliver emptyService ds) h) \<le> 100"
  using listAt_le [OF indexOK_reachable] by (simp add: getHashtagEvents_listAt)

lemma getHashtagEvents_track:
  assumes "indexOK s" "references e topic"
  shows "getHashtagEvents (trackHashtagEvents s e) topic
           = insertCapped e (getHashtagEvents s topic)"
  using assms
  by (simp add: getHashtagEvents_listAt hashtagEvents_track references_def listAt_def)

lemma insertCapped_full:
  "length l = 100 \<Longrightarrow> length (insertCapped e l) = 100"
  by (simp add: insertCapped_def Let_def)

lemma insertCapped_keeps:
  assumes "length l < 100"
  shows "event_id ` set (insertCapped e l) = insert (event_id e) (event_id ` set l)"
proof (cases "event_id e \<in> event_id ` set l")
  case True
  then have "insertCapped e l = l"
    using assms by (simp add: insertCapped_present)
  then show ?thesis using True by auto
next
  case False
  then have "insertCapped e l = take 100 (e # l)"
    by (rule insertCapped_fresh)
  then show ?thesis using assms by simp
qed

lemma full_or_all:
  assumes "indexOK s" "\<forall>e\<in>set es. references e topic"
  shows "length (getHashtagEvents (foldl trackHashtagEvents s es) topic) = 100
         \<or> event_id ` set es
             \<subseteq> event_id ` set (getHashtagEvents (foldl trackHashtagEvents s es) topic)"
  using assms
proof (induction es arbitrary: s rule: rev_induct)
  case Nil
  then show ?case by simp
next
  case (snoc e es)
  let ?s = "foldl trackHashtagEvents s es"
  let ?l = "getHashtagEvents ?s topic"
  have ok: "indexOK ?s"
    using snoc.prems(1) by (induction es arbitrary: s) (simp_all add: indexOK_track)
  have step: "getHashtagEvents (foldl trackHashtagEvents s (es @ [e])) topic = insertCapped e ?l"
    using ok snoc.prems(2) by (simp add: getHashtagEvents_track)
  have le: "length ?l \<le> 100"
    using listAt_le [OF ok] by (simp add: getHashtagEvents_listAt)
  have ih: "length ?l = 100 \<or> event_id ` set es \<subseteq> event_id ` set ?l"
    using snoc.IH [OF snoc.prems(1)] snoc.prems(2) by simp
  show ?case
  proof (cases "length ?l = 100")
    case True
    then show ?thesis
      unfolding step by (simp add: insertCapped_full)
  next
    case False
    then have lt: "length ?l < 100" using le by simp
    have "event_id ` set es \<subseteq> event_id ` set ?l"
      using ih False by simp
    then have "event_id ` set (es @ [e]) \<subseteq> event_id ` set (insertCapped e ?l)"
      unfolding insertCapped_keeps [OF lt] by auto
    then show ?thesis
      unfolding step by simp
  qed
qed

lemma many_ids_full:
  assumes "indexOK s" "\<forall>e\<in>set es. references e topic" "distinct (map event_id es)"
    and "length es > 100"
  shows "length (getHashtagEvents (foldl trackHashtagEvents s es) topic) = 100"
proof (rule ccontr)
  let ?l = "getHashtagEvents (foldl trackHashtagEvents s es) topic"
  assume "length ?l \<noteq> 100"
  then have sub: "event_id ` set es \<subseteq> event_id ` set ?l"
    using full_or_all [OF assms(1,2)] by simp
  have ok: "indexOK (foldl trackHashtagEvents s es)"
    using assms(1) by (induction es arbitrary: s) (simp_all add: indexOK_track)
  have le: "length ?l \<le> 100"
    using listAt_le [OF ok] by (simp add: getHashtagEvents_listAt)
  have "card (event_id ` set es) = length es"
    using assms(3) by (metis distinct_card length_map set_map)
  moreover have "card (event_id ` set es) \<le> card (event_id ` set ?l)"
    using sub by (simp add: card_mono)
  moreover have "card (event_id ` set ?l) \<le> length ?l"
    by (metis card_image_le card_length le_trans List.finite_set)
  ultimately show False
    using le assms(4) by simp
qed


text \<open>
  Claim C6. The cap of a topic. After more than 100 events with distinct ids that
  reference a topic have been tracked, in a state that any deliveries have led to,
  \<open>getHashtagEvents\<close> returns exactly 100 entries; where the topic knew none of the
  ids before, they are the last 100 that arrived, the most recent first. In every state
  that deliveries lead to, every topic has at most 100 entries.
\<close>

theorem cap_most_recent_first:
  assumes "\<forall>e\<in>set es. references e topic" "distinct (map event_id es)" "length es > 100"
  shows "length (getHashtagEvents
             (foldl trackHashtagEvents (foldl deliver emptyService ds) es) topic) = 100
       \<and> (event_id ` set es
           \<inter> event_id ` set (getHashtagEvents (foldl deliver emptyService ds) topic) = {}
          \<longrightarrow> getHashtagEvents (foldl trackHashtagEvents (foldl deliver emptyService ds) es) topic
                = take 100 (rev es))
       \<and> (\<forall>ds' h. length (getHashtagEvents (foldl deliver emptyService ds') h) \<le> 100)"
proof (intro conjI impI)
  show "length (getHashtagEvents
             (foldl trackHashtagEvents (foldl deliver emptyService ds) es) topic) = 100"
    using indexOK_reachable assms by (rule many_ids_full)
next
  assume fresh: "event_id ` set es
           \<inter> event_id ` set (getHashtagEvents (foldl deliver emptyService ds) topic) = {}"
  have "getHashtagEvents (foldl trackHashtagEvents (foldl deliver emptyService ds) es) topic
          = take 100 (rev es @ getHashtagEvents (foldl deliver emptyService ds) topic)"
    using indexOK_reachable assms(1,2) fresh by (rule foldl_track_fresh)
  then show "getHashtagEvents (foldl trackHashtagEvents (foldl deliver emptyService ds) es) topic
          = take 100 (rev es)"
    using assms(3) by simp
next
  show "\<forall>ds' h. length (getHashtagEvents (foldl deliver emptyService ds') h) \<le> 100"
    using capped_reachable by simp
qed

lemma countForHashtag_eq:
  "countForHashtag r m h = m(h \<mapsto> bump r (listAt m h))"
  by (simp add: countForHashtag_def bump_def countAt_def listAt_def Let_def)

lemma countAt_bump: "countAt (bump r d) r' = countAt d r' + (if r' = r then 1 else 0)"
  by (simp add: bump_def countAt_def update_conv')

lemma keys_bump: "map fst (bump r d) = addIfNew (map fst d) r"
  by (simp add: bump_def addIfNew_def update_keys image_iff)

lemma set_update_cases:
  "p \<in> set (AList.update k v d) \<Longrightarrow> p \<in> set d \<or> p = (k, v)"
  by (induction d) (auto split: if_splits)

lemma distOK_bump: "distOK d \<Longrightarrow> distOK (bump r d)"
  unfolding distOK_def
proof (intro conjI ballI)
  assume a: "distinct (map fst d) \<and> (\<forall>p\<in>set d. 0 < snd p)"
  then show "distinct (map fst (bump r d))"
    by (simp add: bump_def distinct_update)
  fix p assume "p \<in> set (bump r d)"
  then have "p \<in> set d \<or> p = (r, countAt d r + 1)"
    unfolding bump_def by (rule set_update_cases)
  then show "0 < snd p" using a by auto
qed

lemma listAt_foldl_count:
  "listAt (foldl (countForHashtag r) m hs) k = (bump r ^^ count_list hs k) (listAt m k)"
proof (induction hs arbitrary: m)
  case Nil
  then show ?case by simp
next
  case (Cons h hs)
  have "listAt (countForHashtag r m h) k = (if h = k then bump r (listAt m k) else listAt m k)"
    by (simp add: countForHashtag_eq listAt_def)
  then show ?case
    using Cons.IH [of "countForHashtag r m h"] by (simp add: funpow_swap1)
qed

lemma countAt_funpow: "countAt ((bump r ^^ n) d) r' = countAt d r' + (if r' = r then n else 0)"
  by (induction n) (simp_all add: countAt_bump)

lemma distOK_funpow: "distOK d \<Longrightarrow> distOK ((bump r ^^ n) d)"
  by (induction n) (simp_all add: distOK_bump)

lemma addIfNew_idem: "addIfNew (addIfNew xs x) x = addIfNew xs x"
  by (simp add: addIfNew_def)

lemma keys_funpow:
  "map fst ((bump r ^^ n) d) = (if n = 0 then map fst d else addIfNew (map fst d) r)"
proof (induction n)
  case 0
  then show ?case by simp
next
  case (Suc n)
  then show ?case by (simp add: keys_bump addIfNew_idem)
qed

lemma getHashtagRelayDistribution_listAt:
  "getHashtagRelayDistribution s topic = listAt (hashtagRelayDistribution s) (toLowerCase topic)"
  by (simp add: getHashtagRelayDistribution_def listAt_def)

lemma distribution_track [simp]:
  "hashtagRelayDistribution (trackHashtagEvents s e) = hashtagRelayDistribution s"
  by (simp add: trackHashtagEvents_def)

lemma distribution_deliver:
  "getHashtagRelayDistribution (deliver s d) topic =
     (bump (snd d) ^^ count_list (hashtagsOf (fst d)) (toLowerCase topic))
       (getHashtagRelayDistribution s topic)"
  by (simp add: deliver_def getHashtagRelayDistribution_listAt trackHashtagRelayDistribution_def
      listAt_foldl_count)

lemma references_count:
  "references e topic \<longleftrightarrow> 0 < count_list (hashtagsOf e) (toLowerCase topic)"
  using count_list_0_iff [of "hashtagsOf e" "toLowerCase topic"]
  by (auto simp: references_def)

lemma distribution_run:
  "distOK (getHashtagRelayDistribution (foldl deliver emptyService ds) topic)
   \<and> countAt (getHashtagRelayDistribution (foldl deliver emptyService ds) topic) r
       = deliveries ds topic r
   \<and> map fst (getHashtagRelayDistribution (foldl deliver emptyService ds) topic)
       = foldl addIfNew [] (map snd (filter (\<lambda>d. references (fst d) topic) ds))"
proof (induction ds rule: rev_induct)
  case Nil
  then show ?case
    by (simp add: getHashtagRelayDistribution_def emptyService_def distOK_def countAt_def
        deliveries_def)
next
  case (snoc d ds)
  let ?n = "count_list (hashtagsOf (fst d)) (toLowerCase topic)"
  let ?old = "getHashtagRelayDistribution (foldl deliver emptyService ds) topic"
  have new: "getHashtagRelayDistribution (foldl deliver emptyService (ds @ [d])) topic
               = (bump (snd d) ^^ ?n) ?old"
    by (simp add: distribution_deliver)
  have 1: "distOK ((bump (snd d) ^^ ?n) ?old)"
    using snoc by (simp add: distOK_funpow)
  have 2: "countAt ((bump (snd d) ^^ ?n) ?old) r = deliveries (ds @ [d]) topic r"
    using snoc by (simp add: countAt_funpow deliveries_def)
  have 3: "map fst ((bump (snd d) ^^ ?n) ?old)
             = foldl addIfNew [] (map snd (filter (\<lambda>d. references (fst d) topic) (ds @ [d])))"
    using snoc by (simp add: keys_funpow references_count)
  show ?case
    unfolding new using 1 2 3 by simp
qed

lemma distOK_member:
  assumes "distOK d"
  shows "(r, c) \<in> set d \<longleftrightarrow> c = countAt d r \<and> 0 < c"
proof
  assume "(r, c) \<in> set d"
  then have "map_of d r = Some c" "0 < c"
    using assms by (auto simp: distOK_def)
  then show "c = countAt d r \<and> 0 < c"
    by (simp add: countAt_def)
next
  assume a: "c = countAt d r \<and> 0 < c"
  then have "map_of d r = Some c"
    by (auto simp: countAt_def split: option.splits)
  then show "(r, c) \<in> set d"
    by (rule map_of_SomeD)
qed

lemma count_list_distinct:
  "distinct xs \<Longrightarrow> count_list xs x = (if x \<in> set xs then 1 else 0)"
  by (induction xs) auto

lemma deliveries_calls:
  assumes "\<forall>d\<in>set ds. distinct (hashtagsOf (fst d))"
  shows "deliveries ds topic r
           = length (filter (\<lambda>d. snd d = r \<and> references (fst d) topic) ds)"
  using assms
proof (induction ds)
  case Nil
  then show ?case by (simp add: deliveries_def)
next
  case (Cons d ds)
  have "count_list (hashtagsOf (fst d)) (toLowerCase topic)
          = (if references (fst d) topic then 1 else 0)"
    using Cons.prems by (simp add: references_def count_list_distinct)
  then show ?case
    using Cons by (simp add: deliveries_def)
qed

text \<open>
  Claim C4, as amended. After the deliveries \<open>ds\<close>, the pair of a relay is in the
  result of \<open>getHashtagRelayDistribution\<close> with the count \<open>deliveries ds topic r\<close>: one
  for each \<^verbatim>\<open>t\<close> tag naming the topic in each event that the relay delivered, whether
  or not the message list already held the event. Where no event names a topic twice
  this is the number of calls with that topic and relay. The relays stand in the order
  in which they first delivered the topic; the function does not sort. The insight
  view, its caller, sorts the pairs by falling count.
\<close>

theorem distribution_counts_deliveries:
  "((r, c) \<in> set (getHashtagRelayDistribution (foldl deliver emptyService ds) topic)
      \<longleftrightarrow> c = deliveries ds topic r \<and> 0 < c)
   \<and> ((\<forall>d\<in>set ds. distinct (hashtagsOf (fst d))) \<longrightarrow>
        deliveries ds topic r = calls ds topic r)
   \<and> map fst (getHashtagRelayDistribution (foldl deliver emptyService ds) topic)
        = foldl addIfNew [] (map snd (filter (\<lambda>d. references (fst d) topic) ds))
   \<and> sorted (rev (map snd (relayDistributionView (foldl deliver emptyService ds) topic)))
   \<and> set (relayDistributionView (foldl deliver emptyService ds) topic)
        = set (getHashtagRelayDistribution (foldl deliver emptyService ds) topic)"
proof -
  let ?d = "getHashtagRelayDistribution (foldl deliver emptyService ds) topic"
  have run: "distOK ?d" "countAt ?d r = deliveries ds topic r"
    "map fst ?d = foldl addIfNew [] (map snd (filter (\<lambda>d. references (fst d) topic) ds))"
    using distribution_run [of ds topic r] by simp_all
  have a: "(r, c) \<in> set ?d \<longleftrightarrow> c = deliveries ds topic r \<and> 0 < c"
    using distOK_member [OF run(1), of r c] run(2) by simp
  have "sorted (map (\<lambda>p. - int (snd p)) (relayDistributionView (foldl deliver emptyService ds) topic))"
    unfolding relayDistributionView_def by (rule sorted_sort_key)
  then have s: "sorted (rev (map snd (relayDistributionView (foldl deliver emptyService ds) topic)))"
    by (simp add: sorted_wrt_rev sorted_map sorted_wrt_map)
  show ?thesis
    using a run(3) s deliveries_calls by (simp add: relayDistributionView_def calls_def)
qed

lemma toLowerCase_nostr: "toLowerCase ''Nostr'' = ''nostr''"
  by (simp add: toLowerCase_def toLowerChar_def)

lemma hashtagsOf_exampleEvent:
  "hashtagsOf (exampleEvent i a k ts body)
     = map toLowerCase (List.map_filter (tagValue ''t'') ts)"
  by (simp add: hashtagsOf_def exampleEvent_def)

text \<open>
  Claim C4 as stated does not hold: a relay that delivers one event whose tags name
  the topic twice has the count 2 after one call, and the pairs come in the order of
  first delivery, here with rising counts.
\<close>

theorem distribution_counterexample:
  "getHashtagRelayDistribution
     (foldl deliver emptyService
        [(exampleEvent ''e1'' ''alice'' 1 [[''t'', ''nostr'']] [], ''wss://a.example''),
         (exampleEvent ''e2'' ''bob'' 1 [[''t'', ''nostr''], [''t'', ''Nostr'']] [], ''wss://b.example'')])
     ''nostr''
     = [(''wss://a.example'', 1), (''wss://b.example'', 2)]
   \<and> calls [(exampleEvent ''e1'' ''alice'' 1 [[''t'', ''nostr'']] [], ''wss://a.example''),
         (exampleEvent ''e2'' ''bob'' 1 [[''t'', ''nostr''], [''t'', ''Nostr'']] [], ''wss://b.example'')]
        ''nostr'' ''wss://b.example'' = 1
   \<and> \<not> sorted (rev (map snd (getHashtagRelayDistribution
       (foldl deliver emptyService
          [(exampleEvent ''e1'' ''alice'' 1 [[''t'', ''nostr'']] [], ''wss://a.example''),
           (exampleEvent ''e2'' ''bob'' 1 [[''t'', ''nostr''], [''t'', ''Nostr'']] [], ''wss://b.example'')])
       ''nostr'')))"
  by (simp add: deliver_def trackHashtagRelayDistribution_def trackHashtagEvents_def
      hashtagsOf_exampleEvent List.map_filter_simps countForHashtag_def storeForHashtag_def
      emptyService_def getHashtagRelayDistribution_def toLowerCase_def toLowerChar_def
      calls_def references_def Let_def)

section \<open>Relay discovery: the blacklist and the eviction\<close>

lemma startsWith_prefix: "startsWith s d \<longleftrightarrow> prefix d s"
  unfolding startsWith_def
proof
  assume "take (length d) s = d"
  then have "d @ drop (length d) s = s"
    by (metis append_take_drop_id)
  then show "prefix d s"
    by (metis prefixI)
next
  assume "prefix d s"
  then show "take (length d) s = d"
    by (auto simp: prefix_def)
qed

lemma endsWith_suffix: "endsWith s d \<longleftrightarrow> suffix d s"
  unfolding endsWith_def
proof
  assume a: "length d \<le> length s \<and> drop (length s - length d) s = d"
  then have "take (length s - length d) s @ d = s"
    by (metis append_take_drop_id)
  then show "suffix d s"
    by (metis suffixI)
next
  assume "suffix d s"
  then show "length d \<le> length s \<and> drop (length s - length d) s = d"
    by (auto simp: suffix_def)
qed

text \<open>
  Claim C8. \<open>isBlacklisted\<close> holds of an address exactly when the address does not
  parse, or the host of the parsed address equals an entry of the blacklist, or ends
  with a dot and the entry, or starts with the entry. An address that does not parse is
  blacklisted.
\<close>

theorem blacklist_matching_policy:
  "(isBlacklisted P c relayUrl \<longleftrightarrow>
      (case URL_parse P relayUrl of
         None \<Rightarrow> True
       | Some u \<Rightarrow>
           \<exists>domain\<in>set (blacklistedDomains c).
             hostname u = domain
             \<or> (\<exists>label. hostname u = label @ ''.'' @ domain)
             \<or> (\<exists>rest. hostname u = domain @ rest)))
   \<and> (URL_parse P relayUrl = None \<longrightarrow> isBlacklisted P c relayUrl)"
  by (auto simp: isBlacklisted_def list_ex_iff startsWith_prefix endsWith_suffix
      prefix_def suffix_def split: option.splits)

lemma delete_filter: "AList.delete k m = filter (\<lambda>p. fst p \<noteq> k) m"
  by (induction m) (auto simp: AList.delete_eq)

lemma foldl_delete_filter:
  "foldl (\<lambda>m e. if isStale c now (snd e) then AList.delete (fst e) m else m) m es
     = filter (\<lambda>p. fst p \<notin> fst ` {e \<in> set es. isStale c now (snd e)}) m"
proof (induction es arbitrary: m)
  case Nil
  then show ?case by simp
next
  case (Cons e es)
  show ?case
  proof (cases "isStale c now (snd e)")
    case True
    have "{x \<in> set (e # es). isStale c now (snd x)}
            = insert e {x \<in> set es. isStale c now (snd x)}"
      using True by auto
    then show ?thesis
      using True by (simp add: Cons.IH delete_filter conj_commute)
  next
    case False
    have "{x \<in> set (e # es). isStale c now (snd x)} = {x \<in> set es. isStale c now (snd x)}"
      using False by auto
    then show ?thesis
      using False by (simp add: Cons.IH)
  qed
qed

lemma deleteStale_filter:
  "deleteStale c now entries
     = filter (\<lambda>p. fst p \<notin> fst ` {e \<in> set entries. isStale c now (snd e)}) entries"
  by (simp add: deleteStale_def foldl_delete_filter)

lemma deleteStale_absent:
  assumes "(u, d) \<in> set entries" "isStale c now d"
  shows "u \<notin> fst ` set (deleteStale c now entries)"
proof -
  have key: "u \<in> fst ` {e \<in> set entries. isStale c now (snd e)}"
    using assms by force
  show ?thesis
  proof
    assume "u \<in> fst ` set (deleteStale c now entries)"
    then obtain p where p: "p \<in> set (deleteStale c now entries)" "fst p = u"
      by auto
    from p(1) have "fst p \<notin> fst ` {e \<in> set entries. isStale c now (snd e)}"
      unfolding deleteStale_filter by simp
    then show False
      using key p(2) by simp
  qed
qed

lemma set_slice0: "set (slice0 n xs) \<subseteq> set xs"
  by (auto simp: slice0_def dest: in_set_takeD)

lemma rec_url_scored [simp]: "rec_url (scored P c e) = fst e"
  by (simp add: scored_def Let_def)

lemma recommended_from_table:
  assumes "r \<in> set (fst (getRecommendedRelays P now s))"
  shows "\<exists>d. (rec_url r, d) \<in> set (relayRecommendations s)
            \<and> \<not> isStale (config s) now d
            \<and> int (totalRecsOf d) \<ge> minFolloweeRecommendations (config s)
            \<and> r = scored P (config s) (rec_url r, d)"
proof -
  have "r \<in> set (sort_key (\<lambda>r. - score r) (map (scored P (config s))
          (filter (\<lambda>e. \<not> isStale (config s) now (snd e)
                  \<and> int (totalRecsOf (snd e)) \<ge> minFolloweeRecommendations (config s))
            (relayRecommendations s))))"
    using assms set_slice0 by (fastforce simp: getRecommendedRelays_def Let_def)
  then obtain e where e: "e \<in> set (relayRecommendations s)"
      "\<not> isStale (config s) now (snd e)"
      "int (totalRecsOf (snd e)) \<ge> minFolloweeRecommendations (config s)"
      "r = scored P (config s) e"
    by auto
  then show ?thesis
    by (intro exI [of _ "snd e"]) simp
qed

text \<open>
  Claim C9. An entry with \<open>now - lastSeen > maxAgeHours * 3600 * 1000\<close> is not in the
  result of \<open>getRecommendedRelays\<close>, which also deletes it from the map, and it is not
  in the map after \<open>cleanup\<close>. The map holds each relay once.
\<close>

theorem ttl_eviction:
  assumes "(u, d) \<in> set (relayRecommendations s)"
    and "now - lastSeen d > maxAgeHours (config s) * 3600 * 1000"
    and "distinct (map fst (relayRecommendations s))"
  shows "u \<notin> rec_url ` set (fst (getRecommendedRelays P now s))
       \<and> u \<notin> fst ` set (relayRecommendations (snd (getRecommendedRelays P now s)))
       \<and> u \<notin> fst ` set (relayRecommendations (cleanup now s))"
proof -
  have stale: "isStale (config s) now d"
    using assms(2) by (simp add: isStale_def)
  have 1: "u \<notin> rec_url ` set (fst (getRecommendedRelays P now s))"
  proof
    assume "u \<in> rec_url ` set (fst (getRecommendedRelays P now s))"
    then obtain r where "r \<in> set (fst (getRecommendedRelays P now s))" "rec_url r = u"
      by auto
    then obtain d' where d': "(u, d') \<in> set (relayRecommendations s)"
        "\<not> isStale (config s) now d'"
      using recommended_from_table by blast
    have "d' = d"
      using assms(1,3) d'(1) by (meson eq_key_imp_eq_value)
    then show False using stale d'(2) by simp
  qed
  have 2: "u \<notin> fst ` set (deleteStale (config s) now (relayRecommendations s))"
    using assms(1) stale by (rule deleteStale_absent)
  show ?thesis
    using 1 2 by (simp add: getRecommendedRelays_def cleanup_def Let_def)
qed

section \<open>Relay discovery: the loop of the three operations\<close>

lemma applyRequest_eq:
  "applyRequest c st q =
     (AList.update (fst q) (endorsed q (entryAt (fst st) (fst q))) (fst st),
      if int (totalRecsOf (endorsed q (entryAt (fst st) (fst q)))) \<ge> minFolloweeRecommendations c
      then snd st @ [fst q] else snd st)"
  by (cases q)
    (auto simp: applyRequest_def recommend_def endorsed_def entryAt_def emptyRecommendation_def
      Let_def totalRecsOf_def split: option.splits)

lemma entryAt_update:
  "entryAt (AList.update u d m) v = (if v = u then d else entryAt m v)"
  by (simp add: entryAt_def update_conv')

lemma entryAt_apply:
  "entryAt (fst (applyRequest c st q)) v =
     (if v = fst q then endorsed q (entryAt (fst st) v) else entryAt (fst st) v)"
  by (simp add: applyRequest_eq entryAt_update)

lemma endorsed_covers: "covers q d \<Longrightarrow> endorsed q d = d"
  by (cases q) (auto simp: covers_def endorsed_def finsert_absorb max_def)

lemma covers_endorsed: "covers q (endorsed q d)"
  by (cases q) (auto simp: covers_def endorsed_def)

lemma covers_mono: "covers q d \<Longrightarrow> covers q (endorsed q' d)"
  by (cases q; cases q') (auto simp: covers_def endorsed_def)

lemma read_endorsed: "readRecommendations d |\<subseteq>| readRecommendations (endorsed q d)"
  by (cases q) (auto simp: endorsed_def)

lemma write_endorsed: "writeRecommendations d |\<subseteq>| writeRecommendations (endorsed q d)"
  by (cases q) (auto simp: endorsed_def)

lemma total_endorsed: "totalRecsOf d \<le> totalRecsOf (endorsed q d)"
  unfolding totalRecsOf_def
  by (intro add_mono fcard_mono read_endorsed write_endorsed)

lemma totalAt_apply:
  "totalAt (fst (applyRequest c st q)) v =
     (if v = fst q then totalRecsOf (endorsed q (entryAt (fst st) v)) else totalAt (fst st) v)"
  by (simp add: totalAt_def entryAt_apply)

lemma totalAt_apply_mono: "totalAt (fst st) v \<le> totalAt (fst (applyRequest c st q)) v"
  by (simp add: totalAt_apply total_endorsed) (simp add: totalAt_def total_endorsed)

lemma returned_apply:
  "set (snd (applyRequest c st q)) =
     set (snd st) \<union> {u. u = fst q \<and>
        int (totalAt (fst (applyRequest c st q)) u) \<ge> minFolloweeRecommendations c}"
  by (auto simp: applyRequest_eq totalAt_def entryAt_update)

lemma returned_foldl:
  "set (snd (foldl (applyRequest c) st qs)) =
     set (snd st) \<union> {u \<in> fst ` set qs.
        int (totalAt (fst (foldl (applyRequest c) st qs)) u) \<ge> minFolloweeRecommendations c}"
proof (induction qs rule: rev_induct)
  case Nil
  then show ?case by simp
next
  case (snoc q qs)
  let ?st = "foldl (applyRequest c) st qs"
  let ?m = "minFolloweeRecommendations c"
  have mono: "\<And>v. int (totalAt (fst ?st) v) \<ge> ?m \<Longrightarrow>
                  int (totalAt (fst (applyRequest c ?st q)) v) \<ge> ?m"
    using totalAt_apply_mono [of ?st _ c q] by (meson of_nat_mono order_trans)
  have other: "\<And>v. v \<noteq> fst q \<Longrightarrow>
                  totalAt (fst (applyRequest c ?st q)) v = totalAt (fst ?st) v"
    by (simp add: totalAt_apply)
  have "set (snd (foldl (applyRequest c) st (qs @ [q]))) =
          set (snd ?st) \<union> {u. u = fst q \<and> int (totalAt (fst (applyRequest c ?st q)) u) \<ge> ?m}"
    by (simp add: returned_apply [of c ?st q])
  also have "\<dots> = set (snd st)
       \<union> {u \<in> fst ` set qs. int (totalAt (fst ?st) u) \<ge> ?m}
       \<union> {u. u = fst q \<and> int (totalAt (fst (applyRequest c ?st q)) u) \<ge> ?m}"
    by (simp add: snoc.IH)
  also have "\<dots> = set (snd st)
       \<union> {u \<in> fst ` set (qs @ [q]).
            int (totalAt (fst (applyRequest c ?st q)) u) \<ge> ?m}"
  proof -
    have "{u \<in> fst ` set qs. int (totalAt (fst ?st) u) \<ge> ?m}
            \<union> {u. u = fst q \<and> int (totalAt (fst (applyRequest c ?st q)) u) \<ge> ?m}
          = {u \<in> fst ` set (qs @ [q]). int (totalAt (fst (applyRequest c ?st q)) u) \<ge> ?m}"
      (is "?A \<union> ?B = ?C")
    proof (intro set_eqI iffI)
      fix u assume "u \<in> ?A \<union> ?B"
      then show "u \<in> ?C"
        using mono by auto
    next
      fix u assume u: "u \<in> ?C"
      show "u \<in> ?A \<union> ?B"
      proof (cases "u = fst q")
        case True
        then show ?thesis using u by simp
      next
        case False
        then show ?thesis using u other [OF False] by auto
      qed
    qed
    then show ?thesis by (simp add: Un_assoc)
  qed
  finally show ?case by simp
qed

lemma foldl_filter_map:
  "foldl (\<lambda>st x. if bad x then st else f st (h x)) st xs
     = foldl f st (map h (filter (\<lambda>x. \<not> bad x) xs))"
  by (induction xs arbitrary: st) simp_all

lemma foldl_filter_map_pos:
  "foldl (\<lambda>st x. if good x then f st (h x) else st) st xs
     = foldl f st (map h (filter good xs))"
  by (induction xs arbitrary: st) simp_all

lemma foldl_followed:
  "foldl (\<lambda>f tag. case tagValue ''p'' tag of None \<Rightarrow> f | Some v \<Rightarrow> finsert v f) f ts
     = f |\<union>| fset_of_list (List.map_filter (tagValue ''p'') ts)"
  by (induction ts arbitrary: f) (auto simp: List.map_filter_simps split: option.splits)

lemma process_eq:
  "process P s sg =
     (snd (foldl (applyRequest (config s)) (relayRecommendations s, []) (requestsOf P s sg)),
      s\<lparr> relayRecommendations :=
            fst (foldl (applyRequest (config s)) (relayRecommendations s, []) (requestsOf P s sg)),
         followedPubkeys := followedAfter s sg \<rparr>)"
proof (cases sg)
  case (Announcement event)
  have "foldl (\<lambda>st entry.
            if isBlacklisted P (config s) (url entry) then st
            else recommend (config s) (url entry) (entry_pubkey entry)
                   (timestamp entry) (read entry) (entry_write entry) nip65 st)
          (relayRecommendations s, []) (parseNip65RelayList P event)
        = foldl (applyRequest (config s)) (relayRecommendations s, [])
            (nip65Requests P (config s) event)"
    unfolding nip65Requests_def
    by (subst foldl_filter_map [symmetric]) (simp add: applyRequest_def cong: if_cong)
  then show ?thesis
    using Announcement by (simp add: processNip65Event_def followedAfter_def Let_def)
next
  case (Hint event)
  have "\<And>hints. foldl (\<lambda>st relayUrl.
            if isBlacklisted P (config s) relayUrl then st
            else recommend (config s) relayUrl (pubkey event) (created_at event)
                   True False nip19 st)
          (relayRecommendations s, []) hints
        = foldl (applyRequest (config s)) (relayRecommendations s, [])
            (hintRequests P (config s) event hints)"
    unfolding hintRequests_def
    by (subst foldl_filter_map [symmetric]) (simp add: applyRequest_def cong: if_cong)
  then show ?thesis
    using Hint
    by (simp add: processNip19Hints_def processHintList_def followedAfter_def Let_def)
next
  case (ContactList event)
  have "foldl (\<lambda>st relayUrl.
            if isValidRelayUrl P relayUrl \<and> \<not> isBlacklisted P (config s) relayUrl
            then recommend (config s) (normalizeRelayUrl P relayUrl) (pubkey event)
                   (created_at event) True False contacts st
            else st)
          (relayRecommendations s, []) (contactRelayUrls P (content event))
        = foldl (applyRequest (config s)) (relayRecommendations s, [])
            (contactRequests P (config s) event)"
    unfolding contactRequests_def
    by (subst foldl_filter_map_pos [symmetric]) (simp add: applyRequest_def cong: if_cong)
  then show ?thesis
    using ContactList
    by (simp add: processContactEvent_def followedAfter_def Let_def foldl_followed)
qed

lemma config_process [simp]: "config (snd (process P s sg)) = config s"
  by (simp add: process_eq)

lemma covered_foldl:
  "q \<in> set qs \<Longrightarrow> covers q (entryAt (fst (foldl (applyRequest c) st qs)) (fst q))"
proof (induction qs arbitrary: q rule: rev_induct)
  case Nil
  then show ?case by simp
next
  case (snoc q' qs)
  show ?case
  proof (cases "q = q'")
    case True
    then show ?thesis by (simp add: entryAt_apply covers_endorsed)
  next
    case False
    then have "covers q (entryAt (fst (foldl (applyRequest c) st qs)) (fst q))"
      using snoc by simp
    then show ?thesis
      by (cases "fst q = fst q'") (simp_all add: entryAt_apply covers_mono)
  qed
qed

lemma covers_present: "covers q (entryAt m u) \<Longrightarrow> map_of m u = Some (entryAt m u)"
  by (cases q) (auto simp: covers_def entryAt_def emptyRecommendation_def split: option.splits)

lemma idle_apply:
  assumes "covers q (entryAt m (fst q))"
  shows "fst (applyRequest c (m, new) q) = m"
  using assms covers_present [OF assms]
  by (simp add: applyRequest_eq endorsed_covers update_triv)

lemma idle_foldl:
  "\<forall>q\<in>set qs. covers q (entryAt m (fst q)) \<Longrightarrow> fst (foldl (applyRequest c) (m, new) qs) = m"
proof (induction qs arbitrary: new)
  case Nil
  then show ?case by simp
next
  case (Cons q qs)
  have "fst (applyRequest c (m, new) q) = m"
    using Cons.prems by (simp add: idle_apply)
  then have "applyRequest c (m, new) q = (m, snd (applyRequest c (m, new) q))"
    by (metis prod.collapse)
  then show ?case
    using Cons.IH [of "snd (applyRequest c (m, new) q)"] Cons.prems by simp
qed

lemma table_twice:
  "fst (foldl (applyRequest c) (fst (foldl (applyRequest c) st qs), new) qs)
     = fst (foldl (applyRequest c) st qs)"
  by (rule idle_foldl) (simp add: covered_foldl)

lemma requestsOf_config:
  "config s' = config s \<Longrightarrow> requestsOf P s' sg = requestsOf P s sg"
  by (cases sg) simp_all

lemma followedAfter_twice:
  "config s' = config s \<Longrightarrow> followedPubkeys s' = followedAfter s sg \<Longrightarrow>
   followedAfter s' sg = followedAfter s sg"
  by (cases sg) (auto simp: followedAfter_def)

lemma keys_foldl:
  "fst ` set (fst (foldl (applyRequest c) st qs)) = fst ` set (fst st) \<union> fst ` set qs"
proof (induction qs rule: rev_induct)
  case Nil
  then show ?case by simp
next
  case (snoc q qs)
  then show ?case
    by (simp add: applyRequest_eq dom_update)
qed

lemma normalize_not_blacklisted:
  assumes "hostStable P" "isValidRelayUrl P r" "\<not> isBlacklisted P c r"
  shows "\<not> isBlacklisted P c (normalizeRelayUrl P r)"
proof -
  from assms(2) obtain u where u: "URL_parse P r = Some u"
    by (auto simp: isValidRelayUrl_def split: option.splits)
  with assms(1) obtain v where v: "URL_parse P (stripTrailingSlash (href u)) = Some v"
      "hostname v = hostname u"
    by (auto simp: hostStable_def)
  show ?thesis
    using assms(3) u v by (simp add: isBlacklisted_def normalizeRelayUrl_def)
qed

lemma targets_not_blacklisted:
  assumes "hostStable P" "u \<in> set (targets P s sg)"
  shows "\<not> isBlacklisted P (config s) u"
proof (cases sg)
  case (Announcement event)
  then show ?thesis
    using assms(2) by (auto simp: targets_def nip65Requests_def split: if_splits)
next
  case (Hint event)
  then show ?thesis
    using assms(2) by (auto simp: targets_def hintRequests_def split: if_splits)
next
  case (ContactList event)
  then show ?thesis
    using assms normalize_not_blacklisted [OF assms(1)]
    by (auto simp: targets_def contactRequests_def split: if_splits)
qed

lemma keys_process:
  "fst ` set (relayRecommendations (snd (process P s sg)))
     = fst ` set (relayRecommendations s) \<union> set (targets P s sg)"
  using keys_foldl [of "config s" "(relayRecommendations s, [])" "requestsOf P s sg"]
  by (simp add: process_eq targets_def)

lemma config_processAll [simp]: "config (processAll P s sgs) = config s"
  unfolding processAll_def by (induction sgs arbitrary: s) simp_all

lemma keys_processAll:
  assumes "hostStable P"
    and "\<forall>u\<in>fst ` set (relayRecommendations s). \<not> isBlacklisted P (config s) u"
  shows "\<forall>u\<in>fst ` set (relayRecommendations (processAll P s sgs)).
           \<not> isBlacklisted P (config s) u"
  using assms(2)
proof (induction sgs arbitrary: s)
  case Nil
  then show ?case by (simp add: processAll_def)
next
  case (Cons sg sgs)
  let ?s = "snd (process P s sg)"
  have "\<forall>u\<in>fst ` set (relayRecommendations ?s). \<not> isBlacklisted P (config ?s) u"
    using Cons.prems targets_not_blacklisted [OF assms(1), of _ s sg]
    unfolding keys_process by auto
  then have "\<forall>u\<in>fst ` set (relayRecommendations (processAll P ?s sgs)).
           \<not> isBlacklisted P (config ?s) u"
    by (rule Cons.IH)
  then show ?case
    by (simp add: processAll_def)
qed

text \<open>
  Claim C7. The blacklist comes first. Whatever announcements, notes with hints and
  contact lists are processed, starting from the constructor's state, a blacklisted
  address is no key of the map and is not in the result of \<open>getRecommendedRelays\<close>.
  For the contact lists this rests on \<open>hostStable\<close>.
\<close>

theorem blacklist_precedence:
  assumes "hostStable P" "isBlacklisted P c u"
  shows "u \<notin> fst ` set (relayRecommendations (processAll P (newDiscovery c) sgs))
       \<and> u \<notin> rec_url ` set (fst (getRecommendedRelays P now
                                     (processAll P (newDiscovery c) sgs)))"
proof -
  let ?s = "processAll P (newDiscovery c) sgs"
  have "\<forall>u\<in>fst ` set (relayRecommendations ?s). \<not> isBlacklisted P (config (newDiscovery c)) u"
    using assms(1) by (rule keys_processAll) (simp add: newDiscovery_def)
  then have keys: "u \<notin> fst ` set (relayRecommendations ?s)"
    using assms(2) by (auto simp: newDiscovery_def)
  have "u \<notin> rec_url ` set (fst (getRecommendedRelays P now ?s))"
  proof
    assume "u \<in> rec_url ` set (fst (getRecommendedRelays P now ?s))"
    then obtain r where "r \<in> set (fst (getRecommendedRelays P now ?s))" "rec_url r = u"
      by auto
    then obtain d where "(u, d) \<in> set (relayRecommendations ?s)"
      using recommended_from_table by blast
    then show False using keys by force
  qed
  then show ?thesis using keys by simp
qed

lemma distinct_foldl:
  "distinct (map fst (fst st)) \<Longrightarrow> distinct (map fst (fst (foldl (applyRequest c) st qs)))"
  by (induction qs rule: rev_induct) (simp_all add: applyRequest_eq distinct_update)

lemma distinct_process:
  "distinct (map fst (relayRecommendations s)) \<Longrightarrow>
   distinct (map fst (relayRecommendations (snd (process P s sg))))"
  using distinct_foldl [of "(relayRecommendations s, [])" "config s" "requestsOf P s sg"]
  by (simp add: process_eq)

lemma grow_foldl:
  "readRecommendations (entryAt (fst st) v)
     |\<subseteq>| readRecommendations (entryAt (fst (foldl (applyRequest c) st qs)) v)
   \<and> writeRecommendations (entryAt (fst st) v)
     |\<subseteq>| writeRecommendations (entryAt (fst (foldl (applyRequest c) st qs)) v)"
proof (induction qs rule: rev_induct)
  case Nil
  then show ?case by simp
next
  case (snoc q qs)
  let ?e = "entryAt (fst (foldl (applyRequest c) st qs)) v"
  have "readRecommendations ?e |\<subseteq>| readRecommendations (endorsed q ?e)"
       "writeRecommendations ?e |\<subseteq>| writeRecommendations (endorsed q ?e)"
    by (rule read_endorsed, rule write_endorsed)
  then show ?case
    using snoc by (auto simp: entryAt_apply)
qed

lemma requests_add:
  "q \<in> set (requestsOf P s sg) \<Longrightarrow> fst (snd (snd (snd q))) \<or> fst (snd (snd (snd (snd q))))"
  by (cases sg)
    (auto simp: nip65Requests_def hintRequests_def contactRequests_def parseNip65RelayList_def
      List.map_filter_def split: if_splits option.splits)

lemma second_endorsement:
  assumes "(u, pk) \<in> set (endorsements P s sg)"
    and "pk |\<notin>| readRecommendations (entryAt (relayRecommendations s) u)
                 |\<union>| writeRecommendations (entryAt (relayRecommendations s) u)"
  shows "totalAt (relayRecommendations s) u + 1
           \<le> totalAt (relayRecommendations (snd (process P s sg))) u"
proof -
  let ?st = "(relayRecommendations s, []) :: (string \<times> Recommendation) list \<times> string list"
  let ?T = "fst (foldl (applyRequest (config s)) ?st (requestsOf P s sg))"
  let ?d = "entryAt (relayRecommendations s) u"
  let ?e = "entryAt ?T u"
  from assms(1) obtain q where q: "q \<in> set (requestsOf P s sg)" "fst q = u" "fst (snd q) = pk"
    by (auto simp: endorsements_def)
  obtain ts rd wr src where qq: "q = (u, pk, ts, rd, wr, src)"
    using q(2,3) by (cases q) auto
  have add: "rd \<or> wr"
    using requests_add [OF q(1)] qq by simp
  have cov: "covers q ?e"
    using covered_foldl [OF q(1), of "config s" ?st] q(2) by simp
  have sub: "readRecommendations ?d |\<subseteq>| readRecommendations ?e"
       "writeRecommendations ?d |\<subseteq>| writeRecommendations ?e"
    using grow_foldl [of ?st u "config s" "requestsOf P s sg"] by simp_all
  have new: "pk |\<notin>| readRecommendations ?d" "pk |\<notin>| writeRecommendations ?d"
    using assms(2) by auto
  have "fcard (readRecommendations ?d) + fcard (writeRecommendations ?d) + 1
          \<le> fcard (readRecommendations ?e) + fcard (writeRecommendations ?e)"
  proof (cases rd)
    case True
    then have "pk |\<in>| readRecommendations ?e"
      using cov qq by (simp add: covers_def)
    then have "finsert pk (readRecommendations ?d) |\<subseteq>| readRecommendations ?e"
      using sub(1) by auto
    then have "fcard (finsert pk (readRecommendations ?d)) \<le> fcard (readRecommendations ?e)"
      by (rule fcard_mono)
    moreover have "fcard (writeRecommendations ?d) \<le> fcard (writeRecommendations ?e)"
      using sub(2) by (rule fcard_mono)
    ultimately show ?thesis
      using new(1) by (simp add: fcard_finsert_disjoint)
  next
    case False
    then have "pk |\<in>| writeRecommendations ?e"
      using cov qq add by (simp add: covers_def)
    then have "finsert pk (writeRecommendations ?d) |\<subseteq>| writeRecommendations ?e"
      using sub(2) by auto
    then have "fcard (finsert pk (writeRecommendations ?d)) \<le> fcard (writeRecommendations ?e)"
      by (rule fcard_mono)
    moreover have "fcard (readRecommendations ?d) \<le> fcard (readRecommendations ?e)"
      using sub(1) by (rule fcard_mono)
    ultimately show ?thesis
      using new(2) by (simp add: fcard_finsert_disjoint)
  qed
  then show ?thesis
    by (simp add: totalAt_def totalRecsOf_def process_eq)
qed

lemma slice0_all: "int (length xs) \<le> n \<Longrightarrow> slice0 n xs = xs"
  by (simp add: slice0_def)

lemma recommended_present:
  assumes "(u, d) \<in> set (qualifying now s)"
    and "int (length (qualifying now s)) \<le> maxRelays (config s)"
  shows "u \<in> rec_url ` set (fst (getRecommendedRelays P now s))"
proof -
  let ?xs = "sort_key (\<lambda>r. - score r) (map (scored P (config s)) (qualifying now s))"
  have "fst (getRecommendedRelays P now s) = slice0 (maxRelays (config s)) ?xs"
    by (simp add: getRecommendedRelays_def qualifying_def Let_def)
  moreover have "slice0 (maxRelays (config s)) ?xs = ?xs"
    using assms(2) by (intro slice0_all) simp
  moreover have "scored P (config s) (u, d) \<in> set ?xs"
    using assms(1) by simp
  ultimately show ?thesis
    by (metis fst_conv image_eqI rec_url_scored)
qed

lemma qualifying_iff:
  "(u, d) \<in> set (qualifying now s) \<longleftrightarrow>
     (u, d) \<in> set (relayRecommendations s) \<and> \<not> isStale (config s) now d
     \<and> int (totalRecsOf d) \<ge> minFolloweeRecommendations (config s)"
  by (auto simp: qualifying_def)

lemma below_threshold_absent:
  assumes "distinct (map fst (relayRecommendations s))"
    and "map_of (relayRecommendations s) u = Some d"
    and "int (totalRecsOf d) < minFolloweeRecommendations (config s)"
  shows "u \<notin> rec_url ` set (fst (getRecommendedRelays P now s))"
proof
  assume "u \<in> rec_url ` set (fst (getRecommendedRelays P now s))"
  then obtain r where "r \<in> set (fst (getRecommendedRelays P now s))" "rec_url r = u"
    by auto
  then obtain d' where d': "(u, d') \<in> set (relayRecommendations s)"
      "int (totalRecsOf d') \<ge> minFolloweeRecommendations (config s)"
    using recommended_from_table by blast
  have "map_of (relayRecommendations s) u = Some d'"
    using assms(1) d'(1) by simp
  then show False
    using assms(2,3) d'(2) by simp
qed

text \<open>
  Claim C1, as amended. With the threshold 2, a relay whose combined count (the size of
  the set of readers plus the size of the set of writers) is 1 is not in the result of
  \<open>getRecommendedRelays\<close>. When a call then records an endorsement of the relay by a
  public key that is in neither set, the combined count is at least 2, and the relay is
  in the result, if its entry is not stale and no more than \<open>maxRelays\<close> entries
  qualify. (One author who is in both sets counts twice: see the counterexample.)
\<close>

theorem promotion_threshold:
  assumes "minFolloweeRecommendations (config s) = 2"
    and "distinct (map fst (relayRecommendations s))"
    and "map_of (relayRecommendations s) u = Some d"
    and "totalRecsOf d = 1"
  shows "u \<notin> rec_url ` set (fst (getRecommendedRelays P now s))
       \<and> ((u, pk) \<in> set (endorsements P s sg)
            \<and> pk |\<notin>| readRecommendations d |\<union>| writeRecommendations d
            \<and> \<not> isStale (config s) now (entryAt (relayRecommendations (snd (process P s sg))) u)
            \<and> int (length (qualifying now (snd (process P s sg)))) \<le> maxRelays (config s)
          \<longrightarrow> 2 \<le> totalAt (relayRecommendations (snd (process P s sg))) u
            \<and> u \<in> rec_url ` set (fst (getRecommendedRelays P now (snd (process P s sg)))))"
proof (intro conjI impI)
  show "u \<notin> rec_url ` set (fst (getRecommendedRelays P now s))"
    using assms by (intro below_threshold_absent [of s u d]) simp_all
next
  let ?s = "snd (process P s sg)"
  assume a: "(u, pk) \<in> set (endorsements P s sg)
            \<and> pk |\<notin>| readRecommendations d |\<union>| writeRecommendations d
            \<and> \<not> isStale (config s) now (entryAt (relayRecommendations ?s) u)
            \<and> int (length (qualifying now ?s)) \<le> maxRelays (config s)"
  have d: "entryAt (relayRecommendations s) u = d"
    using assms(3) by (simp add: entryAt_def)
  have "totalAt (relayRecommendations s) u + 1 \<le> totalAt (relayRecommendations ?s) u"
    using a d by (intro second_endorsement [of u pk P s sg]) simp_all
  then show two: "2 \<le> totalAt (relayRecommendations ?s) u"
    using assms(4) d by (simp add: totalAt_def)
  have "u \<in> fst ` set (relayRecommendations ?s)"
    using assms(3) by (auto simp: keys_process dest: map_of_SomeD intro: image_eqI [where x = "(u, d)"])
  then obtain e where e: "(u, e) \<in> set (relayRecommendations ?s)"
    by auto
  have "distinct (map fst (relayRecommendations ?s))"
    using assms(2) by (rule distinct_process)
  then have "map_of (relayRecommendations ?s) u = Some e"
    using e by simp
  then have ee: "entryAt (relayRecommendations ?s) u = e"
    by (simp add: entryAt_def)
  have "(u, e) \<in> set (qualifying now ?s)"
    using e a two assms(1) ee by (simp add: qualifying_iff totalAt_def)
  then show "u \<in> rec_url ` set (fst (getRecommendedRelays P now ?s))"
    using a by (intro recommended_present [of u e]) simp_all
qed

section \<open>The hints of \<^verbatim>\<open>extractNip19RelayHints\<close>\<close>

text \<open>
  An entity that the first regular expression matches consists of lowercase letters
  and digits. The second regular expression needs \<^verbatim>\<open>://\<close> and is applied to the text
  of the entity, not to what the entity encodes. So no hint is found in any content.
\<close>

lemma take_split:
  assumes "take k r = a" "drop k r = d # t" "length a = k"
  shows "take (k + 1 + m) r = a @ d # take m t"
proof -
  have "r = a @ d # t"
    using assms(1,2) append_take_drop_id [of k r] by simp
  then show ?thesis
    using assms(3) by simp
qed

lemma takeWhile_no_colon: "CHR '':'' \<notin> set (takeWhile isLowerAlnum t)"
proof
  assume "CHR '':'' \<in> set (takeWhile isLowerAlnum t)"
  then have "isLowerAlnum (CHR '':'')"
    by (rule set_takeWhileD [THEN conjunct2])
  then show False
    by (simp add: isLowerAlnum_def)
qed

lemma entity_no_colon:
  assumes "entityLength s = Some n"
  shows "CHR '':'' \<notin> set (take n s)"
proof -
  from assms obtain r where s: "s = CHR ''n'' # r"
    by (auto simp: entityLength_def split: list.splits if_splits)
  from assms s obtain k a t where k: "take k r = a" "length a = k"
      "a \<in> {''profile'', ''event'', ''addr''}" "drop k r = CHR ''1'' # t"
      "n = 1 + k + 1 + length (takeWhile isLowerAlnum t)"
    by (auto simp: entityLength_def Let_def split: list.splits if_splits)
  have "take (k + 1 + length (takeWhile isLowerAlnum t)) r
          = a @ CHR ''1'' # take (length (takeWhile isLowerAlnum t)) t"
    using k(1,4,2) by (rule take_split)
  also have "take (length (takeWhile isLowerAlnum t)) t = takeWhile isLowerAlnum t"
    by (metis takeWhile_eq_take)
  finally have "take n s = CHR ''n'' # a @ CHR ''1'' # takeWhile isLowerAlnum t"
    using s k(5) by simp
  then show ?thesis
    using k(3) takeWhile_no_colon [of t] by auto
qed

lemma url_needs_colon:
  assumes "CHR '':'' \<notin> set s"
  shows "urlLength s = None"
proof -
  have "take 6 s \<noteq> ''wss://''"
  proof
    assume "take 6 s = ''wss://''"
    then have "CHR '':'' \<in> set (take 6 s)" by simp
    then show False using assms by (auto dest: in_set_takeD)
  qed
  moreover have "take 5 s \<noteq> ''ws://''"
  proof
    assume "take 5 s = ''ws://''"
    then have "CHR '':'' \<in> set (take 5 s)" by simp
    then show False using assms by (auto dest: in_set_takeD)
  qed
  ultimately show ?thesis
    by (simp add: urlLength_def)
qed

lemma no_url_matches:
  "CHR '':'' \<notin> set s \<Longrightarrow> scanMatches urlLength k s = []"
proof (induction s arbitrary: k)
  case Nil
  then show ?case by simp
next
  case (Cons c cs)
  then have "urlLength (c # cs) = None" 
    by (intro url_needs_colon) simp
  then show ?case
    using Cons by (cases k) simp_all
qed

lemma entity_matches_no_colon:
  "e \<in> set (scanMatches entityLength k s) \<Longrightarrow> CHR '':'' \<notin> set e"
proof (induction s arbitrary: k)
  case Nil
  then show ?case by simp
next
  case (Cons c cs)
  show ?case
  proof (cases k)
    case 0
    show ?thesis
    proof (cases "entityLength (c # cs)")
      case None
      then show ?thesis using Cons 0 by simp
    next
      case (Some n)
      then have "e = take n (c # cs) \<or> e \<in> set (scanMatches entityLength (n - 1) cs)"
        using Cons.prems 0 by simp
      then show ?thesis
        using entity_no_colon [OF Some] Cons.IH by blast
    qed
  next
    case (Suc j)
    then show ?thesis using Cons by simp
  qed
qed

lemma parse_entity_empty:
  "e \<in> set (scanMatches entityLength k s) \<Longrightarrow> parseNip19RelayHints P e = []"
  by (simp add: parseNip19RelayHints_def no_url_matches entity_matches_no_colon
      List.map_filter_simps)

lemma foldl_hints_empty:
  "\<forall>e\<in>set es. parseNip19RelayHints P e = [] \<Longrightarrow>
   foldl (\<lambda>relays entity. foldl addIfNew relays (parseNip19RelayHints P entity)) acc es = acc"
  by (induction es arbitrary: acc) simp_all

lemma hints_never_resolve: "extractNip19RelayHints P text = []"
  unfolding extractNip19RelayHints_def
  by (rule foldl_hints_empty) (simp add: parse_entity_empty)

lemma processNip19Hints_idle: "processNip19Hints P s event = ([], s)"
  by (simp add: processNip19Hints_def processHintList_def hints_never_resolve Let_def)

lemma simpleURL_relay:
  "simpleURL ''wss://relay.example/'' =
     Some \<lparr> protocol = ''wss:'', hostname = ''relay.example'', href = ''wss://relay.example/'' \<rparr>"
  "simpleURL ''wss://relay.example'' =
     Some \<lparr> protocol = ''wss:'', hostname = ''relay.example'', href = ''wss://relay.example/'' \<rparr>"
  by (simp_all add: simpleURL_def hostAndPath_def isLowerLetter_def isPathChar_def Let_def)

lemma not_blacklisted_relay:
  "\<not> isBlacklisted examplePlatform defaultStandardConfig ''wss://relay.example''"
  by (simp add: isBlacklisted_def examplePlatform_def simpleURL_relay defaultStandardConfig_def
      startsWith_def endsWith_def)

section \<open>The examples, evaluated\<close>

lemma exampleEvent_fields [simp]:
  "event_id (exampleEvent i a k ts body) = i"
  "pubkey (exampleEvent i a k ts body) = a"
  "created_at (exampleEvent i a k ts body) = 1700000000"
  "kind (exampleEvent i a k ts body) = k"
  "tags (exampleEvent i a k ts body) = ts"
  "content (exampleEvent i a k ts body) = body"
  by (simp_all add: exampleEvent_def)

lemma default_fields [simp]:
  "maxRelays defaultStandardConfig = 15"
  "minFolloweeRecommendations defaultStandardConfig = 2"
  "nip65Enabled defaultStandardConfig"
  "nip19Enabled defaultStandardConfig"
  "followContactRelays defaultStandardConfig"
  "maxAgeHours defaultStandardConfig = 720"
  by (simp_all add: defaultStandardConfig_def)

lemma valid_relay:
  "isValidRelayUrl examplePlatform ''wss://relay.example/''"
  "normalizeRelayUrl examplePlatform ''wss://relay.example/'' = ''wss://relay.example''"
  by (simp_all add: isValidRelayUrl_def normalizeRelayUrl_def examplePlatform_def
      simpleURL_relay stripTrailingSlash_def)

lemma parse_unmarked:
  "parseNip65RelayList examplePlatform
     (exampleEvent i a 10002 [[''r'', ''wss://relay.example/'']] body)
   = [\<lparr> url = ''wss://relay.example'', read = True, entry_write = True, source = nip65,
         entry_pubkey = a, timestamp = 1700000000 \<rparr>]"
  by (simp add: parseNip65RelayList_def List.map_filter_simps valid_relay)

lemma announce_alice:
  "processNip65Event examplePlatform (newDiscovery defaultStandardConfig)
     (exampleEvent ''a1'' ''alice'' 10002 [[''r'', ''wss://relay.example/'']] [])
   = ([''wss://relay.example''],
      \<lparr> relayRecommendations =
          [(''wss://relay.example'',
            \<lparr> readRecommendations = {|''alice''|}, writeRecommendations = {|''alice''|},
              lastSeen = 1700000000000, sources = [nip65] \<rparr>)],
        followedPubkeys = {||}, config = defaultStandardConfig \<rparr>)"
  by (simp add: processNip65Event_def parse_unmarked newDiscovery_def not_blacklisted_relay
      recommend_def totalRecsOf_def Let_def fcard_finsert_if)

text \<open>
  Claim C1 as stated does not hold: after one announcement by one author with an
  unmarked \<^verbatim>\<open>r\<close> tag, the author is the only member of both sets, and the relay is
  in the result of \<open>getRecommendedRelays\<close> with the threshold 2.
\<close>

theorem promotion_counterexample:
  "relayRecommendations (snd (processNip65Event examplePlatform
       (newDiscovery defaultStandardConfig)
       (exampleEvent ''a1'' ''alice'' 10002 [[''r'', ''wss://relay.example/'']] [])))
     = [(''wss://relay.example'',
         \<lparr> readRecommendations = {|''alice''|}, writeRecommendations = {|''alice''|},
           lastSeen = 1700000000000, sources = [nip65] \<rparr>)]
   \<and> minFolloweeRecommendations defaultStandardConfig = 2
   \<and> map rec_url (fst (getRecommendedRelays examplePlatform 1700000060000
         (snd (processNip65Event examplePlatform (newDiscovery defaultStandardConfig)
           (exampleEvent ''a1'' ''alice'' 10002 [[''r'', ''wss://relay.example/'']] [])))))
     = [''wss://relay.example'']"
  by (simp add: announce_alice getRecommendedRelays_def isStale_def totalRecsOf_def
      fcard_finsert_if slice0_def Let_def scored_def)

section \<open>What the operations return, and processing an event again\<close>

lemma processHintList_eq:
  "processHintList P s event hints =
     (snd (foldl (applyRequest (config s)) (relayRecommendations s, [])
             (hintRequests P (config s) event hints)),
      s\<lparr> relayRecommendations :=
            fst (foldl (applyRequest (config s)) (relayRecommendations s, [])
                   (hintRequests P (config s) event hints)) \<rparr>)"
proof -
  have "foldl (\<lambda>st relayUrl.
            if isBlacklisted P (config s) relayUrl then st
            else recommend (config s) relayUrl (pubkey event) (created_at event)
                   True False nip19 st)
          (relayRecommendations s, []) hints
        = foldl (applyRequest (config s)) (relayRecommendations s, [])
            (hintRequests P (config s) event hints)"
    unfolding hintRequests_def
    by (subst foldl_filter_map [symmetric]) (simp add: applyRequest_def cong: if_cong)
  then show ?thesis
    by (simp add: processHintList_def Let_def)
qed

text \<open>
  Claim C2, as amended. The list that an operation returns holds exactly the relays
  that the call updates and whose combined count after the call is at or above the
  threshold, whether or not the count was there before the call. The same holds of the
  loop of \<open>processNip19Hints\<close> on any list of hints.
\<close>

theorem returned_meet_threshold:
  "set (fst (process P s sg)) =
     {u \<in> set (targets P s sg).
        int (totalAt (relayRecommendations (snd (process P s sg))) u)
          \<ge> minFolloweeRecommendations (config s)}
   \<and> set (fst (processHintList P s event hints)) =
     {u \<in> set (filter (\<lambda>h. \<not> isBlacklisted P (config s) h) hints).
        int (totalAt (relayRecommendations (snd (processHintList P s event hints))) u)
          \<ge> minFolloweeRecommendations (config s)}"
proof
  show "set (fst (process P s sg)) =
     {u \<in> set (targets P s sg).
        int (totalAt (relayRecommendations (snd (process P s sg))) u)
          \<ge> minFolloweeRecommendations (config s)}"
    using returned_foldl [of "config s" "(relayRecommendations s, [])" "requestsOf P s sg"]
    by (simp add: process_eq targets_def)
next
  have "fst ` set (hintRequests P (config s) event hints)
          = set (filter (\<lambda>h. \<not> isBlacklisted P (config s) h) hints)"
    by (simp add: hintRequests_def image_image)
  then show "set (fst (processHintList P s event hints)) =
     {u \<in> set (filter (\<lambda>h. \<not> isBlacklisted P (config s) h) hints).
        int (totalAt (relayRecommendations (snd (processHintList P s event hints))) u)
          \<ge> minFolloweeRecommendations (config s)}"
    using returned_foldl [of "config s" "(relayRecommendations s, [])"
        "hintRequests P (config s) event hints"]
    by (simp add: processHintList_eq)
qed

text \<open>
  Claim C10. Processing the same event a second time by the same operation leaves the
  state as the first call left it: the map with its sets, \<open>lastSeen\<close> and \<open>sources\<close>,
  and the followed public keys. The same holds of the loop of \<open>processNip19Hints\<close> on
  any list of hints.
\<close>

theorem redelivery_idempotent:
  "snd (process P (snd (process P s sg)) sg) = snd (process P s sg)
   \<and> snd (processHintList P (snd (processHintList P s event hints)) event hints)
       = snd (processHintList P s event hints)"
proof
  let ?s = "snd (process P s sg)"
  have c: "config ?s = config s" by simp
  have f: "followedPubkeys ?s = followedAfter s sg"
    by (simp add: process_eq)
  have t: "relayRecommendations ?s
             = fst (foldl (applyRequest (config s)) (relayRecommendations s, []) (requestsOf P s sg))"
    by (simp add: process_eq)
  show "snd (process P ?s sg) = ?s"
    by (simp add: process_eq [of P ?s] c requestsOf_config [OF c]
        followedAfter_twice [OF c f] t table_twice)
      (simp add: process_eq)
next
  show "snd (processHintList P (snd (processHintList P s event hints)) event hints)
       = snd (processHintList P s event hints)"
    by (simp add: processHintList_eq table_twice)
qed


section \<open>The claims on examples\<close>


lemma simpleURL_examples:
  "simpleURL ''wss://relay.example.com/'' =
     Some \<lparr> protocol = ''wss:'', hostname = ''relay.example.com'',
            href = ''wss://relay.example.com/'' \<rparr>"
  "simpleURL ''wss://relay.example.com'' =
     Some \<lparr> protocol = ''wss:'', hostname = ''relay.example.com'',
            href = ''wss://relay.example.com/'' \<rparr>"
  "simpleURL ''relay.example'' = None"
  by (simp_all add: simpleURL_def hostAndPath_def isLowerLetter_def isPathChar_def Let_def)

lemma blacklisted_examples:
  "isBlacklisted examplePlatform defaultStandardConfig ''wss://relay.example.com''"
  "isBlacklisted examplePlatform defaultStandardConfig ''wss://relay.example.com/''"
  by (simp_all add: isBlacklisted_def examplePlatform_def simpleURL_examples
      defaultStandardConfig_def startsWith_def endsWith_def)

text \<open>Claim C8 on a host under a blacklisted domain, a host that is not, and a string that is no address.\<close>

theorem blacklist_matching_policy_witness:
  "isBlacklisted examplePlatform defaultStandardConfig ''wss://relay.example.com/''
   \<and> \<not> isBlacklisted examplePlatform defaultStandardConfig ''wss://relay.example/''
   \<and> isBlacklisted examplePlatform defaultStandardConfig ''relay.example''"
proof -
  have 1: "isBlacklisted examplePlatform defaultStandardConfig ''wss://relay.example.com/''"
    using blacklist_matching_policy
      [of examplePlatform defaultStandardConfig "''wss://relay.example.com/''"]
    by (simp add: examplePlatform_def simpleURL_examples defaultStandardConfig_def)
  have 2: "\<not> isBlacklisted examplePlatform defaultStandardConfig ''wss://relay.example/''"
    using blacklist_matching_policy
      [of examplePlatform defaultStandardConfig "''wss://relay.example/''"]
    by (simp add: examplePlatform_def simpleURL_relay defaultStandardConfig_def
        append_eq_Cons_conv Cons_eq_append_conv)
  have 3: "isBlacklisted examplePlatform defaultStandardConfig ''relay.example''"
    using blacklist_matching_policy
      [of examplePlatform defaultStandardConfig "''relay.example''"]
    by (simp add: examplePlatform_def simpleURL_examples)
  show ?thesis using 1 2 3 by simp
qed




text \<open>Claim C9 on the entry of an announcement, read one millisecond after 720 hours.\<close>

theorem ttl_eviction_witness:
  "''wss://relay.example'' \<notin> rec_url ` set (fst (getRecommendedRelays examplePlatform 1702592000001
       (snd (processNip65Event examplePlatform (newDiscovery defaultStandardConfig)
          (exampleEvent ''a1'' ''alice'' 10002 [[''r'', ''wss://relay.example/'']] [])))))
   \<and> ''wss://relay.example'' \<notin> fst ` set (relayRecommendations (snd
       (getRecommendedRelays examplePlatform 1702592000001
         (snd (processNip65Event examplePlatform (newDiscovery defaultStandardConfig)
            (exampleEvent ''a1'' ''alice'' 10002 [[''r'', ''wss://relay.example/'']] []))))))
   \<and> ''wss://relay.example'' \<notin> fst ` set (relayRecommendations (cleanup 1702592000001
       (snd (processNip65Event examplePlatform (newDiscovery defaultStandardConfig)
          (exampleEvent ''a1'' ''alice'' 10002 [[''r'', ''wss://relay.example/'']] [])))))"
proof -
  let ?s = "snd (processNip65Event examplePlatform (newDiscovery defaultStandardConfig)
          (exampleEvent ''a1'' ''alice'' 10002 [[''r'', ''wss://relay.example/'']] []))"
  let ?d = "\<lparr> readRecommendations = {|''alice''|}, writeRecommendations = {|''alice''|},
              lastSeen = 1700000000000, sources = [nip65] \<rparr>"
  have 1: "(''wss://relay.example'', ?d) \<in> set (relayRecommendations ?s)"
    by (simp add: announce_alice)
  have 2: "1702592000001 - lastSeen ?d > maxAgeHours (config ?s) * 3600 * 1000"
    by (simp add: announce_alice)
  have 3: "distinct (map fst (relayRecommendations ?s))"
    by (simp add: announce_alice)
  show ?thesis
    by (rule ttl_eviction [OF 1 2 3])
qed

lemma references_example:
  "references (exampleEvent i a k [[''t'', ''Nostr'']] body) ''nostr''"
  by (simp add: references_def hashtagsOf_exampleEvent List.map_filter_simps toLowerCase_nostr)
    (simp add: toLowerCase_def toLowerChar_def)

text \<open>Claim C5 on a note that a relay has delivered before.\<close>

theorem recordMessage_idempotent_witness:
  "trackHashtagEvents
     (trackHashtagEvents
        (foldl deliver emptyService
           [(exampleEvent ''e1'' ''alice'' 1 [[''t'', ''Nostr'']] [], ''wss://a.example'')])
        (exampleEvent ''e1'' ''alice'' 1 [[''t'', ''Nostr'']] []))
     (exampleEvent ''e1'' ''alice'' 1 [[''t'', ''Nostr'']] [])
   = trackHashtagEvents
       (foldl deliver emptyService
          [(exampleEvent ''e1'' ''alice'' 1 [[''t'', ''Nostr'']] [], ''wss://a.example'')])
       (exampleEvent ''e1'' ''alice'' 1 [[''t'', ''Nostr'']] [])
   \<and> length (filter (\<lambda>x. event_id x = event_id (exampleEvent ''e1'' ''alice'' 1 [[''t'', ''Nostr'']] []))
       (getHashtagEvents
          (trackHashtagEvents
             (trackHashtagEvents
                (foldl deliver emptyService
                   [(exampleEvent ''e1'' ''alice'' 1 [[''t'', ''Nostr'']] [], ''wss://a.example'')])
                (exampleEvent ''e1'' ''alice'' 1 [[''t'', ''Nostr'']] []))
             (exampleEvent ''e1'' ''alice'' 1 [[''t'', ''Nostr'']] []))
          ''nostr'')) = 1"
  by (rule recordMessage_idempotent [OF references_example])

lemma references_numbered: "references (numbered n) ''bitcoin''"
  by (simp add: references_def numbered_def hashtagsOf_exampleEvent List.map_filter_simps)

lemma distinct_numbered: "distinct (map event_id (map numbered [0..<n]))"
proof -
  have "inj_on (\<lambda>k. replicate k (CHR ''x'')) (set [0..<n])"
    by (rule inj_onI) (metis length_replicate)
  then have "distinct (map (\<lambda>k. replicate k (CHR ''x'')) [0..<n])"
    by (simp add: distinct_map)
  then show ?thesis
    by (simp add: numbered_def comp_def)
qed

text \<open>Claim C6 on 101 notes with the topic \<^verbatim>\<open>bitcoin\<close>.\<close>

theorem cap_most_recent_first_witness:
  "getHashtagEvents
     (foldl trackHashtagEvents (foldl deliver emptyService []) (map numbered [0..<101]))
     ''bitcoin''
   = take 100 (rev (map numbered [0..<101]))
   \<and> length (getHashtagEvents
       (foldl trackHashtagEvents (foldl deliver emptyService []) (map numbered [0..<101]))
       ''bitcoin'') = 100"
proof -
  have 1: "\<forall>e\<in>set (map numbered [0..<101]). references e ''bitcoin''"
    by (simp add: references_numbered)
  have 2: "distinct (map event_id (map numbered [0..<101]))"
    by (rule distinct_numbered)
  have 3: "length (map numbered [0..<101]) > 100"
    by simp
  have 4: "event_id ` set (map numbered [0..<101])
             \<inter> event_id ` set (getHashtagEvents (foldl deliver emptyService []) ''bitcoin'') = {}"
    by (simp add: getHashtagEvents_def emptyService_def)
  show ?thesis
    using cap_most_recent_first [OF 1 2 3, of "[]"] 4 by simp
qed




text \<open>Claim C4, as amended, where one relay delivers the same note twice and another relay a second note.\<close>

theorem distribution_counts_deliveries_witness:
  "(''wss://a.example'', 2) \<in> set (getHashtagRelayDistribution
       (foldl deliver emptyService
          [(exampleEvent ''e1'' ''alice'' 1 [[''t'', ''nostr'']] [], ''wss://a.example''),
           (exampleEvent ''e1'' ''alice'' 1 [[''t'', ''nostr'']] [], ''wss://a.example''),
           (exampleEvent ''e2'' ''bob'' 1 [[''t'', ''nostr'']] [], ''wss://b.example'')])
       ''nostr'')
   \<and> calls
        [(exampleEvent ''e1'' ''alice'' 1 [[''t'', ''nostr'']] [], ''wss://a.example''),
         (exampleEvent ''e1'' ''alice'' 1 [[''t'', ''nostr'']] [], ''wss://a.example''),
         (exampleEvent ''e2'' ''bob'' 1 [[''t'', ''nostr'']] [], ''wss://b.example'')]
        ''nostr'' ''wss://a.example'' = 2
   \<and> map fst (getHashtagRelayDistribution
       (foldl deliver emptyService
          [(exampleEvent ''e1'' ''alice'' 1 [[''t'', ''nostr'']] [], ''wss://a.example''),
           (exampleEvent ''e1'' ''alice'' 1 [[''t'', ''nostr'']] [], ''wss://a.example''),
           (exampleEvent ''e2'' ''bob'' 1 [[''t'', ''nostr'']] [], ''wss://b.example'')])
       ''nostr'') = [''wss://a.example'', ''wss://b.example'']"
  using distribution_counts_deliveries
    [of "''wss://a.example''" 2
      "[(exampleEvent ''e1'' ''alice'' 1 [[''t'', ''nostr'']] [], ''wss://a.example''),
        (exampleEvent ''e1'' ''alice'' 1 [[''t'', ''nostr'']] [], ''wss://a.example''),
        (exampleEvent ''e2'' ''bob'' 1 [[''t'', ''nostr'']] [], ''wss://b.example'')]"
      "''nostr''"]
  by (simp add: deliveries_def hashtagsOf_exampleEvent List.map_filter_simps addIfNew_def
      references_def calls_def)

text \<open>Claim C10 on an announcement, and on the loop of the hints with one hint.\<close>

theorem redelivery_idempotent_witness:
  "snd (process examplePlatform
          (snd (process examplePlatform (newDiscovery defaultStandardConfig)
                  (Announcement (exampleEvent ''a1'' ''alice'' 10002
                     [[''r'', ''wss://relay.example/'']] []))))
          (Announcement (exampleEvent ''a1'' ''alice'' 10002
             [[''r'', ''wss://relay.example/'']] [])))
   = snd (process examplePlatform (newDiscovery defaultStandardConfig)
            (Announcement (exampleEvent ''a1'' ''alice'' 10002
               [[''r'', ''wss://relay.example/'']] [])))
   \<and> relayRecommendations
       (snd (process examplePlatform (newDiscovery defaultStandardConfig)
               (Announcement (exampleEvent ''a1'' ''alice'' 10002
                  [[''r'', ''wss://relay.example/'']] []))))
     = [(''wss://relay.example'',
         \<lparr> readRecommendations = {|''alice''|}, writeRecommendations = {|''alice''|},
           lastSeen = 1700000000000, sources = [nip65] \<rparr>)]
   \<and> snd (processHintList examplePlatform
            (snd (processHintList examplePlatform (newDiscovery defaultStandardConfig)
                    (exampleEvent ''n1'' ''bob'' 1 [] []) [''wss://relay.example'']))
            (exampleEvent ''n1'' ''bob'' 1 [] []) [''wss://relay.example''])
     = snd (processHintList examplePlatform (newDiscovery defaultStandardConfig)
              (exampleEvent ''n1'' ''bob'' 1 [] []) [''wss://relay.example''])"
  using redelivery_idempotent
    [of examplePlatform "newDiscovery defaultStandardConfig"
      "Announcement (exampleEvent ''a1'' ''alice'' 10002 [[''r'', ''wss://relay.example/'']] [])"
      "exampleEvent ''n1'' ''bob'' 1 [] []" "[''wss://relay.example'']"]
  by (simp add: announce_alice)




lemma parse_read:
  "parseNip65RelayList examplePlatform
     (exampleEvent i a 10002 [[''r'', ''wss://relay.example/'', ''read'']] body)
   = [\<lparr> url = ''wss://relay.example'', read = True, entry_write = False, source = nip65,
         entry_pubkey = a, timestamp = 1700000000 \<rparr>]"
  by (simp add: parseNip65RelayList_def List.map_filter_simps valid_relay)

lemma announce_again:
  "processNip65Event examplePlatform
     \<lparr> relayRecommendations =
         [(''wss://relay.example'',
           \<lparr> readRecommendations = {|''alice''|}, writeRecommendations = {|''alice''|},
             lastSeen = 1700000000000, sources = [nip65] \<rparr>)],
       followedPubkeys = {||}, config = defaultStandardConfig \<rparr>
     (exampleEvent ''a1'' ''alice'' 10002 [[''r'', ''wss://relay.example/'']] [])
   = ([''wss://relay.example''],
      \<lparr> relayRecommendations =
          [(''wss://relay.example'',
            \<lparr> readRecommendations = {|''alice''|}, writeRecommendations = {|''alice''|},
              lastSeen = 1700000000000, sources = [nip65] \<rparr>)],
        followedPubkeys = {||}, config = defaultStandardConfig \<rparr>)"
  by (simp add: processNip65Event_def parse_unmarked not_blacklisted_relay
      recommend_def totalRecsOf_def Let_def fcard_finsert_if fcard_fempty)

lemma announce_read:
  "processNip65Event examplePlatform (newDiscovery defaultStandardConfig)
     (exampleEvent ''a1'' ''alice'' 10002 [[''r'', ''wss://relay.example/'', ''read'']] [])
   = ([],
      \<lparr> relayRecommendations =
          [(''wss://relay.example'',
            \<lparr> readRecommendations = {|''alice''|}, writeRecommendations = {||},
              lastSeen = 1700000000000, sources = [nip65] \<rparr>)],
        followedPubkeys = {||}, config = defaultStandardConfig \<rparr>)"
  by (simp add: processNip65Event_def parse_read newDiscovery_def not_blacklisted_relay
      recommend_def totalRecsOf_def Let_def fcard_finsert_if fcard_fempty)

lemma announce_bob:
  "processNip65Event examplePlatform
     \<lparr> relayRecommendations =
         [(''wss://relay.example'',
           \<lparr> readRecommendations = {|''alice''|}, writeRecommendations = {||},
             lastSeen = 1700000000000, sources = [nip65] \<rparr>)],
       followedPubkeys = {||}, config = defaultStandardConfig \<rparr>
     (exampleEvent ''b1'' ''bob'' 10002 [[''r'', ''wss://relay.example/'', ''read'']] [])
   = ([''wss://relay.example''],
      \<lparr> relayRecommendations =
          [(''wss://relay.example'',
            \<lparr> readRecommendations = {|''bob'', ''alice''|}, writeRecommendations = {||},
              lastSeen = 1700000000000, sources = [nip65] \<rparr>)],
        followedPubkeys = {||}, config = defaultStandardConfig \<rparr>)"
  by (simp add: processNip65Event_def parse_read not_blacklisted_relay
      recommend_def totalRecsOf_def Let_def fcard_finsert_if fcard_fempty)

text \<open>
  Claim C2 as stated does not hold: a relay whose combined count is 2, the threshold,
  is returned again when the announcement that brought it there is processed a second
  time.
\<close>

theorem returned_counterexample:
  "totalAt (relayRecommendations
       (snd (processNip65Event examplePlatform (newDiscovery defaultStandardConfig)
          (exampleEvent ''a1'' ''alice'' 10002 [[''r'', ''wss://relay.example/'']] []))))
     ''wss://relay.example'' = 2
   \<and> minFolloweeRecommendations defaultStandardConfig = 2
   \<and> fst (processNip65Event examplePlatform
       (snd (processNip65Event examplePlatform (newDiscovery defaultStandardConfig)
          (exampleEvent ''a1'' ''alice'' 10002 [[''r'', ''wss://relay.example/'']] [])))
       (exampleEvent ''a1'' ''alice'' 10002 [[''r'', ''wss://relay.example/'']] []))
     = [''wss://relay.example'']"
  by (simp add: announce_alice announce_again totalAt_def entryAt_def totalRecsOf_def
      fcard_finsert_if)

text \<open>
  Claim C2, as amended, on a first endorsement for reading (nothing is returned), a
  second one by another author (the relay is returned), and one hint on an empty map.
\<close>

theorem returned_meet_threshold_witness:
  "set (fst (process examplePlatform (newDiscovery defaultStandardConfig)
       (Announcement (exampleEvent ''a1'' ''alice'' 10002
          [[''r'', ''wss://relay.example/'', ''read'']] [])))) = {}
   \<and> set (fst (process examplePlatform
       (snd (process examplePlatform (newDiscovery defaultStandardConfig)
          (Announcement (exampleEvent ''a1'' ''alice'' 10002
             [[''r'', ''wss://relay.example/'', ''read'']] []))))
       (Announcement (exampleEvent ''b1'' ''bob'' 10002
          [[''r'', ''wss://relay.example/'', ''read'']] []))))
     = {''wss://relay.example''}
   \<and> set (fst (processHintList examplePlatform (newDiscovery defaultStandardConfig)
       (exampleEvent ''n1'' ''bob'' 1 [] []) [''wss://relay.example''])) = {}"
proof -
  let ?s0 = "newDiscovery defaultStandardConfig"
  let ?a = "Announcement (exampleEvent ''a1'' ''alice'' 10002
          [[''r'', ''wss://relay.example/'', ''read'']] [])"
  let ?b = "Announcement (exampleEvent ''b1'' ''bob'' 10002
          [[''r'', ''wss://relay.example/'', ''read'']] [])"
  let ?n = "exampleEvent ''n1'' ''bob'' 1 [] []"
  have t: "totalAt (relayRecommendations (snd (process examplePlatform ?s0 ?a)))
             ''wss://relay.example'' = 1"
    by (simp add: announce_read totalAt_def entryAt_def totalRecsOf_def fcard_finsert_if)
  have 1: "set (fst (process examplePlatform ?s0 ?a)) = {}"
    using returned_meet_threshold [of examplePlatform ?s0 ?a ?n "[]"] t
    by (auto simp: newDiscovery_def targets_def nip65Requests_def parse_read
        not_blacklisted_relay)
  have 2: "set (fst (process examplePlatform (snd (process examplePlatform ?s0 ?a)) ?b))
             = {''wss://relay.example''}"
    using returned_meet_threshold [of examplePlatform "snd (process examplePlatform ?s0 ?a)" ?b ?n "[]"]
    by (simp add: announce_read announce_bob)
  have 3: "set (fst (processHintList examplePlatform ?s0 ?n [''wss://relay.example''])) = {}"
    using returned_meet_threshold [of examplePlatform ?s0 ?a ?n "[''wss://relay.example'']"]
    by (simp add: processHintList_def newDiscovery_def not_blacklisted_relay recommend_def
        totalRecsOf_def Let_def fcard_finsert_if fcard_fempty)
  show ?thesis using 1 2 3 by simp
qed




text \<open>The platform of the examples is \<open>hostStable\<close>.\<close>

lemma hostOK_no_slash: "hostOK b h \<Longrightarrow> CHR ''/'' \<notin> set h"
  by (induction h arbitrary: b) (auto simp: isLowerLetter_def split: if_splits)

lemma split_at_slash:
  assumes "CHR ''/'' \<notin> set h" "q = [] \<or> hd q = CHR ''/''"
  shows "takeWhile (\<lambda>c. c \<noteq> CHR ''/'') (h @ q) = h"
    and "dropWhile (\<lambda>c. c \<noteq> CHR ''/'') (h @ q) = q"
proof -
  have all: "\<forall>c\<in>set h. c \<noteq> CHR ''/''"
    using assms(1) by auto
  have q: "takeWhile (\<lambda>c. c \<noteq> CHR ''/'') q = []" "dropWhile (\<lambda>c. c \<noteq> CHR ''/'') q = q"
    using assms(2) by (cases q; simp)+
  show "takeWhile (\<lambda>c. c \<noteq> CHR ''/'') (h @ q) = h"
    using all q(1) by (simp add: takeWhile_append2)
  show "dropWhile (\<lambda>c. c \<noteq> CHR ''/'') (h @ q) = q"
    using all q(2) by (simp add: dropWhile_append2)
qed

lemma hostAndPath_again:
  assumes "hostOK True h" "q = [] \<or> hd q = CHR ''/''" "list_all isPathChar q"
  shows "\<exists>v. hostAndPath scheme (h @ q) = Some v \<and> hostname v = h"
  using assms split_at_slash [OF hostOK_no_slash [OF assms(1)] assms(2)]
  by (simp add: hostAndPath_def Let_def)

lemma strip_path:
  assumes "p \<noteq> []" "hd p = CHR ''/''" "list_all isPathChar p"
  shows "\<exists>q. stripTrailingSlash (a @ p) = a @ q
            \<and> (q = [] \<or> hd q = CHR ''/'') \<and> list_all isPathChar q"
proof (cases "last p = CHR ''/''")
  case True
  have "stripTrailingSlash (a @ p) = a @ butlast p"
    using True assms(1) by (simp add: stripTrailingSlash_def butlast_append)
  moreover have "butlast p = [] \<or> hd (butlast p) = CHR ''/''"
    using assms(1,2) by (cases p) auto
  moreover have "list_all isPathChar (butlast p)"
    using assms(3) by (auto simp: list_all_iff dest: in_set_butlastD)
  ultimately show ?thesis by blast
next
  case False
  then have "stripTrailingSlash (a @ p) = a @ p"
    using assms(1) by (simp add: stripTrailingSlash_def)
  then show ?thesis
    using assms by blast
qed

lemma hostAndPath_SomeD:
  assumes "hostAndPath scheme r = Some u"
  shows "hostOK True (takeWhile (\<lambda>c. c \<noteq> CHR ''/'') r)"
    and "list_all isPathChar (dropWhile (\<lambda>c. c \<noteq> CHR ''/'') r)"
    and "hostname u = takeWhile (\<lambda>c. c \<noteq> CHR ''/'') r"
    and "href u = (scheme @ ''//'' @ takeWhile (\<lambda>c. c \<noteq> CHR ''/'') r)
           @ (if dropWhile (\<lambda>c. c \<noteq> CHR ''/'') r = [] then ''/''
              else dropWhile (\<lambda>c. c \<noteq> CHR ''/'') r)"
proof -
  have c: "hostOK True (takeWhile (\<lambda>c. c \<noteq> CHR ''/'') r)
           \<and> list_all isPathChar (dropWhile (\<lambda>c. c \<noteq> CHR ''/'') r)"
    using assms unfolding hostAndPath_def Let_def by (meson option.distinct(1))
  then have "u = \<lparr> protocol = scheme, hostname = takeWhile (\<lambda>c. c \<noteq> CHR ''/'') r,
                   href = scheme @ ''//'' @ takeWhile (\<lambda>c. c \<noteq> CHR ''/'') r
                     @ (if dropWhile (\<lambda>c. c \<noteq> CHR ''/'') r = [] then ''/''
                        else dropWhile (\<lambda>c. c \<noteq> CHR ''/'') r) \<rparr>"
    using assms unfolding hostAndPath_def Let_def by simp
  then show "hostname u = takeWhile (\<lambda>c. c \<noteq> CHR ''/'') r"
    and "href u = (scheme @ ''//'' @ takeWhile (\<lambda>c. c \<noteq> CHR ''/'') r)
           @ (if dropWhile (\<lambda>c. c \<noteq> CHR ''/'') r = [] then ''/''
              else dropWhile (\<lambda>c. c \<noteq> CHR ''/'') r)"
    by simp_all
  show "hostOK True (takeWhile (\<lambda>c. c \<noteq> CHR ''/'') r)"
    and "list_all isPathChar (dropWhile (\<lambda>c. c \<noteq> CHR ''/'') r)"
    using c by simp_all
qed

lemma hostAndPath_stable:
  assumes "hostAndPath scheme r = Some u"
  shows "\<exists>q. stripTrailingSlash (href u) = (scheme @ ''//'' @ hostname u) @ q
            \<and> hostOK True (hostname u) \<and> (q = [] \<or> hd q = CHR ''/'') \<and> list_all isPathChar q"
proof -
  define h where "h = takeWhile (\<lambda>c. c \<noteq> CHR ''/'') r"
  define p where "p = dropWhile (\<lambda>c. c \<noteq> CHR ''/'') r"
  define p' where "p' = (if p = [] then ''/'' else p)"
  have ok: "hostOK True h" "list_all isPathChar p"
    and u: "hostname u = h" "href u = (scheme @ ''//'' @ h) @ p'"
    using hostAndPath_SomeD [OF assms] unfolding h_def p_def p'_def by blast+
  have "p \<noteq> [] \<Longrightarrow> hd p = CHR ''/''"
    unfolding p_def using hd_dropWhile [of "\<lambda>c. c \<noteq> CHR ''/''" r] by simp
  then have p': "p' \<noteq> []" "hd p' = CHR ''/''" "list_all isPathChar p'"
    using ok(2) unfolding p'_def by (simp_all add: isPathChar_def)
  show ?thesis
    unfolding u using strip_path [OF p', of "scheme @ ''//'' @ h"] ok(1) by blast
qed

lemma hostStable_example: "hostStable examplePlatform"
  unfolding hostStable_def
proof (intro allI impI)
  fix s u
  assume "URL_parse examplePlatform s = Some u"
  then have su: "simpleURL s = Some u"
    by (simp add: examplePlatform_def)
  then consider (wss) "hostAndPath ''wss:'' (drop 6 s) = Some u"
    | (ws) "hostAndPath ''ws:'' (drop 5 s) = Some u"
    by (auto simp: simpleURL_def split: if_splits)
  then show "\<exists>v. URL_parse examplePlatform (stripTrailingSlash (href u)) = Some v
               \<and> hostname v = hostname u"
  proof cases
    case wss
    from hostAndPath_stable [OF wss] obtain q where
      q: "stripTrailingSlash (href u) = (''wss:'' @ ''//'' @ hostname u) @ q"
         "hostOK True (hostname u)" "q = [] \<or> hd q = CHR ''/''" "list_all isPathChar q"
      by blast
    have "simpleURL (stripTrailingSlash (href u)) = hostAndPath ''wss:'' (hostname u @ q)"
      unfolding q(1) by (simp add: simpleURL_def)
    then show ?thesis
      using hostAndPath_again [OF q(2,3,4), of "''wss:''"] by (simp add: examplePlatform_def)
  next
    case ws
    from hostAndPath_stable [OF ws] obtain q where
      q: "stripTrailingSlash (href u) = (''ws:'' @ ''//'' @ hostname u) @ q"
         "hostOK True (hostname u)" "q = [] \<or> hd q = CHR ''/''" "list_all isPathChar q"
      by blast
    have "simpleURL (stripTrailingSlash (href u)) = hostAndPath ''ws:'' (hostname u @ q)"
      unfolding q(1) by (simp add: simpleURL_def take_Cons')
    then show ?thesis
      using hostAndPath_again [OF q(2,3,4), of "''ws:''"] by (simp add: examplePlatform_def)
  qed
qed


text \<open>
  Claim C7 on two announcements and a contact list that name a relay under the
  blacklisted domain \<^verbatim>\<open>example.com\<close>.
\<close>

theorem blacklist_precedence_witness:
  \<open>''wss://relay.example.com'' \<notin> fst ` set (relayRecommendations
       (processAll examplePlatform (newDiscovery defaultStandardConfig)
          [Announcement (exampleEvent ''a1'' ''alice'' 10002
             [[''r'', ''wss://relay.example.com/'']] []),
           Announcement (exampleEvent ''b1'' ''bob'' 10002
             [[''r'', ''wss://relay.example.com/'']] []),
           ContactList (exampleEvent ''c1'' ''carol'' 3 [[''p'', ''dave'']]
             ''{"dave":{"relay":"wss://relay.example.com/"}}'')]))
   \<and> ''wss://relay.example.com'' \<notin> rec_url ` set (fst
       (getRecommendedRelays examplePlatform 1700000060000
          (processAll examplePlatform (newDiscovery defaultStandardConfig)
             [Announcement (exampleEvent ''a1'' ''alice'' 10002
                [[''r'', ''wss://relay.example.com/'']] []),
              Announcement (exampleEvent ''b1'' ''bob'' 10002
                [[''r'', ''wss://relay.example.com/'']] []),
              ContactList (exampleEvent ''c1'' ''carol'' 3 [[''p'', ''dave'']]
                ''{"dave":{"relay":"wss://relay.example.com/"}}'')])))\<close>
  by (rule blacklist_precedence [OF hostStable_example blacklisted_examples(1)])

text \<open>
  Claim C1, as amended, on a relay that one author announces for reading, and a second
  author then announces for reading.
\<close>

theorem promotion_threshold_witness:
  "''wss://relay.example'' \<notin> rec_url ` set (fst
       (getRecommendedRelays examplePlatform 1700000060000
          (snd (processNip65Event examplePlatform (newDiscovery defaultStandardConfig)
             (exampleEvent ''a1'' ''alice'' 10002
                [[''r'', ''wss://relay.example/'', ''read'']] [])))))
   \<and> 2 \<le> totalAt (relayRecommendations
       (snd (process examplePlatform
          (snd (processNip65Event examplePlatform (newDiscovery defaultStandardConfig)
             (exampleEvent ''a1'' ''alice'' 10002
                [[''r'', ''wss://relay.example/'', ''read'']] [])))
          (Announcement (exampleEvent ''b1'' ''bob'' 10002
             [[''r'', ''wss://relay.example/'', ''read'']] [])))))
       ''wss://relay.example''
   \<and> ''wss://relay.example'' \<in> rec_url ` set (fst
       (getRecommendedRelays examplePlatform 1700000060000
          (snd (process examplePlatform
             (snd (processNip65Event examplePlatform (newDiscovery defaultStandardConfig)
                (exampleEvent ''a1'' ''alice'' 10002
                   [[''r'', ''wss://relay.example/'', ''read'']] [])))
             (Announcement (exampleEvent ''b1'' ''bob'' 10002
                [[''r'', ''wss://relay.example/'', ''read'']] []))))))"
proof -
  let ?s = "snd (processNip65Event examplePlatform (newDiscovery defaultStandardConfig)
             (exampleEvent ''a1'' ''alice'' 10002
                [[''r'', ''wss://relay.example/'', ''read'']] []))"
  let ?d = "\<lparr> readRecommendations = {|''alice''|}, writeRecommendations = {||},
              lastSeen = 1700000000000, sources = [nip65] \<rparr>"
  let ?b = "Announcement (exampleEvent ''b1'' ''bob'' 10002
             [[''r'', ''wss://relay.example/'', ''read'']] [])"
  have 1: "minFolloweeRecommendations (config ?s) = 2"
    by (simp add: announce_read)
  have 2: "distinct (map fst (relayRecommendations ?s))"
    by (simp add: announce_read)
  have 3: "map_of (relayRecommendations ?s) ''wss://relay.example'' = Some ?d"
    by (simp add: announce_read)
  have 4: "totalRecsOf ?d = 1"
    by (simp add: totalRecsOf_def fcard_finsert_if fcard_fempty)
  have a: "(''wss://relay.example'', ''bob'') \<in> set (endorsements examplePlatform ?s ?b)"
    by (simp add: announce_read endorsements_def nip65Requests_def parse_read
        not_blacklisted_relay)
  have b: "''bob'' |\<notin>| readRecommendations ?d |\<union>| writeRecommendations ?d"
    by simp
  have c: "\<not> isStale (config ?s) 1700000060000
              (entryAt (relayRecommendations (snd (process examplePlatform ?s ?b)))
                 ''wss://relay.example'')"
    by (simp add: announce_read announce_bob entryAt_def isStale_def)
  have d: "int (length (qualifying 1700000060000 (snd (process examplePlatform ?s ?b))))
             \<le> maxRelays (config ?s)"
    by (simp add: announce_read announce_bob qualifying_def)
  show ?thesis
    using promotion_threshold [OF 1 2 3 4, of examplePlatform 1700000060000 "''bob''" ?b]
      a b c d by simp
qed

text \<open>
  Claim C3. The scenario is an announcement by a first author with an unmarked \<^verbatim>\<open>r\<close>
  tag for \<^verbatim>\<open>wss://relay.example/\<close>, then a note by a second author with a hint of the
  same relay; the claim expects the sources of the one recommended entry to hold the
  announcement and the hint. The code does not bear it out: \<open>processNip19Hints\<close>
  returns nothing and leaves the state as it is, for every event in every state, since
  \<open>extractNip19RelayHints\<close> finds no hint in any content. So whatever the content \<open>c\<close>
  of the note of the second author, the one entry of \<open>getRecommendedRelays\<close> is that of
  the announcement alone, with \<open>totalRecs = 2\<close> and the source \<open>nip65\<close> only.
\<close>

theorem scenario_hint_not_recorded:
  "processNip19Hints P s event = ([], s)
   \<and> fst (getRecommendedRelays examplePlatform 1700000060000
       (snd (processNip19Hints examplePlatform
          (snd (processNip65Event examplePlatform (newDiscovery defaultStandardConfig)
             (exampleEvent ''a1'' ''alice'' 10002 [[''r'', ''wss://relay.example/'']] [])))
          (exampleEvent ''n1'' ''bob'' 1 [] c))))
     = [\<lparr> rec_url = ''wss://relay.example'', readRecs = 1, writeRecs = 1, totalRecs = 2,
           rec_lastSeen = 1700000000000, rec_sources = [nip65], score = 7 \<rparr>]"
proof
  show "processNip19Hints P s event = ([], s)"
    by (rule processNip19Hints_idle)
next
  have "\<not> isPreferredDomain examplePlatform defaultStandardConfig ''wss://relay.example''"
    by (simp add: isPreferredDomain_def examplePlatform_def simpleURL_relay
        defaultStandardConfig_def endsWith_def)
  then show "fst (getRecommendedRelays examplePlatform 1700000060000
       (snd (processNip19Hints examplePlatform
          (snd (processNip65Event examplePlatform (newDiscovery defaultStandardConfig)
             (exampleEvent ''a1'' ''alice'' 10002 [[''r'', ''wss://relay.example/'']] [])))
          (exampleEvent ''n1'' ''bob'' 1 [] c))))
     = [\<lparr> rec_url = ''wss://relay.example'', readRecs = 1, writeRecs = 1, totalRecs = 2,
           rec_lastSeen = 1700000000000, rec_sources = [nip65], score = 7 \<rparr>]"
    by (simp add: processNip19Hints_idle announce_alice getRecommendedRelays_def isStale_def
        totalRecsOf_def fcard_finsert_if fcard_fempty slice0_def Let_def scored_def)
qed

text \<open>
  Claim C3 on a note whose content is an \<^verbatim>\<open>nprofile\<close> entity that encodes the relay
  hint \<^verbatim>\<open>wss://relay.example/\<close>: the call returns nothing, the state is as the
  announcement left it, and the recommended entry has no source of a hint.
\<close>

theorem scenario_hint_not_recorded_witness:
  "processNip19Hints examplePlatform
     (snd (processNip65Event examplePlatform (newDiscovery defaultStandardConfig)
        (exampleEvent ''a1'' ''alice'' 10002 [[''r'', ''wss://relay.example/'']] [])))
     (exampleEvent ''n1'' ''bob'' 1 []
        ''nostr:nprofile1qqsrhuxx8l9ex335q7he0f09aej04zpazpl0ne2cgukyawd24mayt8gpz3mhxue69uhhyetvv9ujuetcv9khqmr99u22jyls'')
   = ([], snd (processNip65Event examplePlatform (newDiscovery defaultStandardConfig)
        (exampleEvent ''a1'' ''alice'' 10002 [[''r'', ''wss://relay.example/'']] [])))
   \<and> fst (getRecommendedRelays examplePlatform 1700000060000
       (snd (processNip19Hints examplePlatform
          (snd (processNip65Event examplePlatform (newDiscovery defaultStandardConfig)
             (exampleEvent ''a1'' ''alice'' 10002 [[''r'', ''wss://relay.example/'']] [])))
          (exampleEvent ''n1'' ''bob'' 1 []
             ''nostr:nprofile1qqsrhuxx8l9ex335q7he0f09aej04zpazpl0ne2cgukyawd24mayt8gpz3mhxue69uhhyetvv9ujuetcv9khqmr99u22jyls''))))
     = [\<lparr> rec_url = ''wss://relay.example'', readRecs = 1, writeRecs = 1, totalRecs = 2,
           rec_lastSeen = 1700000000000, rec_sources = [nip65], score = 7 \<rparr>]"
  by (rule scenario_hint_not_recorded)

end
